theory Spec2Isabelle
  imports Main
begin

section \<open>Characters and decimal numerals\<close>

text \<open>
  Strings are lists of 8-bit characters. On this range Python's \<^verbatim>\<open>\d\<close> is the ten ASCII
  digits and \<^verbatim>\<open>[A-Z]\<close> the 26 ASCII capitals.
\<close>

definition in_range :: "char \<Rightarrow> char \<Rightarrow> char \<Rightarrow> bool" where
  "in_range lo hi c = ((of_char lo :: nat) \<le> of_char c \<and> (of_char c :: nat) \<le> of_char hi)"

definition is_digit :: "char \<Rightarrow> bool" where
  "is_digit c = in_range (CHR ''0'') (CHR ''9'') c"

definition is_upper :: "char \<Rightarrow> bool" where
  "is_upper c = in_range (CHR ''A'') (CHR ''Z'') c"

definition is_lower :: "char \<Rightarrow> bool" where
  "is_lower c = in_range (CHR ''a'') (CHR ''z'') c"

text \<open>\<^verbatim>\<open>string.digits + string.ascii_uppercase\<close>\<close>

definition alphabet :: string where
  "alphabet = ''0123456789ABCDEFGHIJKLMNOPQRSTUVWXYZ''"

text \<open>\<^verbatim>\<open>s.index(c)\<close> for a one-character \<open>c\<close>; \<open>None\<close> stands for the ValueError.\<close>

fun str_index :: "string \<Rightarrow> char \<Rightarrow> nat option" where
  "str_index [] c = None"
| "str_index (x # xs) c = (if x = c then Some 0 else map_option Suc (str_index xs c))"

definition digit_char :: "nat \<Rightarrow> char" where
  "digit_char n = char_of (48 + n)"

text \<open>\<^verbatim>\<open>str(n)\<close> of a non-negative integer.\<close>

function str_nat :: "nat \<Rightarrow> string" where
  "str_nat n = (if n < 10 then [digit_char n] else str_nat (n div 10) @ [digit_char (n mod 10)])"
  by pat_completeness auto
termination
  by (relation "measure id") auto

declare str_nat.simps [simp del]

definition str_int :: "int \<Rightarrow> string" where
  "str_int v = (if v < 0 then CHR ''-'' # str_nat (nat (- v)) else str_nat (nat v))"

text \<open>\<^verbatim>\<open>s.rjust(width, fill)\<close>; a width below the length (also a negative one) pads nothing.\<close>

definition rjust :: "string \<Rightarrow> int \<Rightarrow> char \<Rightarrow> string" where
  "rjust s width fill = replicate (nat (width - int (length s))) fill @ s"

text \<open>\<^verbatim>\<open>'{:2d}'.format(v)\<close>: the decimal rendering, right-aligned in a field of width 2.
  The fill character of this format is the space.\<close>

definition format_2d :: "int \<Rightarrow> string" where
  "format_2d v = rjust (str_int v) 2 (CHR '' '')"

definition digit_value :: "char \<Rightarrow> nat" where
  "digit_value c = of_char c - 48"

definition decimal_value :: "string \<Rightarrow> nat" where
  "decimal_value s = foldl (\<lambda>acc c. 10 * acc + digit_value c) 0 s"

section \<open>Errors\<close>

text \<open>
  The source raises ValueError with a message for each failure; the constructors name the
  failures after the specification's taxonomy. \<open>InvalidCharacter\<close> is the ValueError that
  escapes from \<^verbatim>\<open>numerify\<close>, \<open>KeyError\<close> a missing dictionary key,
  \<open>InvalidSpecification\<close> the \<^verbatim>\<open>re.error\<close> of the regex compiler and \<open>OverflowError\<close> its
  complaint about a repeat count. \<open>OutsideFragment\<close> marks regex syntax that the model of
  the regex engine below does not cover; no theorem relies on it.
\<close>

datatype error =
    UnknownCountry string
  | CodeTooLong string int
  | InvalidCharacters
  | InvalidLength
  | InvalidBBANStructure string string
  | InvalidChecksum
  | InvalidCharacter
  | KeyError string
  | InvalidSpecification
  | OverflowError
  | OutsideFragment

section \<open>Numeric checksum engine\<close>

text \<open>\<^verbatim>\<open>int(s)\<close> on the strings \<^verbatim>\<open>numerify\<close> builds: decimal digits only; the empty
  string is a ValueError.\<close>

definition int_of_str :: "string \<Rightarrow> error + int" where
  "int_of_str s = (if s \<noteq> [] \<and> list_all is_digit s then Inr (int (decimal_value s))
                   else Inl InvalidCharacter)"

fun indices :: "string \<Rightarrow> nat list option" where
  "indices [] = Some []"
| "indices (c # cs) =
     (case str_index alphabet c of
        None \<Rightarrow> None
      | Some i \<Rightarrow> (case indices cs of None \<Rightarrow> None | Some is \<Rightarrow> Some (i # is)))"

text \<open>\<^verbatim>\<open>int(''.join(str(_alphabet.index(c)) for c in string))\<close>\<close>

definition numerify :: "string \<Rightarrow> error + int" where
  "numerify s = (case indices s of
                   None \<Rightarrow> Inl InvalidCharacter
                 | Some is \<Rightarrow> int_of_str (concat (map str_nat is)))"

section \<open>The base string holder\<close>

text \<open>
  Modelled from the spec: the class \<^verbatim>\<open>Base\<close> of \<^verbatim>\<open>schwifty.common\<close> is not among the
  sources. The specification gives it the normalisation of the input (uppercasing and
  whitespace removal), the stored \<open>compact\<close> string, its length, and the accessors as
  slices of \<open>compact\<close>: \<open>country_code\<close> characters 0 to 2, \<open>checksum_digits\<close>
  characters 2 to 4, \<open>bban\<close> characters 4 to the end.
\<close>

record iban =
  code :: string

definition is_space :: "char \<Rightarrow> bool" where
  "is_space c = ((of_char c :: nat) \<in> {9, 10, 11, 12, 13, 32})"

definition to_upper :: "char \<Rightarrow> char" where
  "to_upper c = (if is_lower c then char_of ((of_char c :: nat) - 32) else c)"

definition clean :: "string \<Rightarrow> string" where
  "clean s = map to_upper (filter (\<lambda>c. \<not> is_space c) s)"

definition base_init :: "string \<Rightarrow> iban" where
  "base_init s = \<lparr>code = clean s\<rparr>"

definition compact :: "iban \<Rightarrow> string" where
  "compact x = code x"

definition length_iban :: "iban \<Rightarrow> int" where
  "length_iban x = int (length (compact x))"

text \<open>\<^verbatim>\<open>compact[start:end]\<close> for non-negative bounds; \<open>None\<close> is the open end.\<close>

definition get_component :: "nat \<Rightarrow> nat option \<Rightarrow> iban \<Rightarrow> string" where
  "get_component start end x =
     (case end of None \<Rightarrow> drop start (compact x)
               | Some e \<Rightarrow> take (e - start) (drop start (compact x)))"

section \<open>The IBAN entity\<close>

definition bban :: "iban \<Rightarrow> string" where
  "bban = get_component 4 None"

definition country_code :: "iban \<Rightarrow> string" where
  "country_code = get_component 0 (Some 2)"

definition checksum_digits :: "iban \<Rightarrow> string" where
  "checksum_digits = get_component 2 (Some 4)"

text \<open>\<^verbatim>\<open>'{:2d}'.format(98 - (numerify(self.bban + self.country_code) * 100) % 97)\<close>\<close>

definition calc_checksum_digits :: "iban \<Rightarrow> error + string" where
  "calc_checksum_digits x =
     (case numerify (bban x @ country_code x) of
        Inl e \<Rightarrow> Inl e
      | Inr n \<Rightarrow> Inr (format_2d (98 - (n * 100) mod 97)))"

text \<open>The method \<^verbatim>\<open>_parse\<close>: it replaces the stored string when the checksum digits are
  the placeholder.\<close>

definition parse :: "iban \<Rightarrow> error + iban" where
  "parse x =
     (if checksum_digits x = ''??''
      then (case calc_checksum_digits x of
              Inl e \<Rightarrow> Inl e
            | Inr d \<Rightarrow> Inr (x\<lparr>code := country_code x @ d @ bban x\<rparr>))
      else Inr x)"

definition numeric :: "iban \<Rightarrow> error + int" where
  "numeric x = numerify (bban x @ take 4 (compact x))"

definition validate_checksum :: "iban \<Rightarrow> error + unit" where
  "validate_checksum x =
     (case numeric x of
        Inl e \<Rightarrow> Inl e
      | Inr n \<Rightarrow> if n mod 97 \<noteq> 1 then Inl InvalidChecksum else Inr ())"

section \<open>The regex engine, as far as the program uses it\<close>

text \<open>
  The program builds regex source strings and hands them to Python's \<^verbatim>\<open>re\<close>. The model
  follows the engine's parser on the syntax that can arise here: a leading \<^verbatim>\<open>^\<close>, a
  trailing \<^verbatim>\<open>$\<close>, the atoms \<^verbatim>\<open>\d\<close>, a bracket of alphanumeric ranges, and a character that
  is not special; after an atom the repeats \<^verbatim>\<open>*\<close>, \<^verbatim>\<open>{m}\<close> and \<^verbatim>\<open>{m,n}\<close>. Any other syntax
  gives \<open>OutsideFragment\<close>.
\<close>

datatype atom = Digit | Bracket "(char \<times> char) list" | Literal char

datatype item = Rep atom nat "nat option"

datatype regex = Regex bool "item list" bool

definition bslash :: char where
  "bslash = CHR 0x5C"

definition newline :: char where
  "newline = CHR 0x0A"

definition meta_chars :: string where
  "meta_chars = bslash # ''.^$*+?{}[]|()''"

text \<open>The engine's bound on a repeat count (\<^verbatim>\<open>_sre.MAXREPEAT\<close>).\<close>

definition MAXREPEAT :: nat where
  "MAXREPEAT = 4294967295"

definition is_alnum :: "char \<Rightarrow> bool" where
  "is_alnum c = (is_digit c \<or> is_upper c \<or> is_lower c)"

fun parse_ranges :: "string \<Rightarrow> ((char \<times> char) list \<times> string) option" where
  "parse_ranges [] = None"
| "parse_ranges (a # r) =
     (if a = CHR '']'' then Some ([], r)
      else (case r of
              m # b # r' \<Rightarrow>
                if m = CHR ''-'' \<and> is_alnum a \<and> is_alnum b \<and> (of_char a :: nat) \<le> of_char b
                then (case parse_ranges r' of
                        None \<Rightarrow> None
                      | Some (rs, rest) \<Rightarrow> Some ((a, b) # rs, rest))
                else None
            | _ \<Rightarrow> None))"

fun parse_atom :: "string \<Rightarrow> (atom \<times> string) option" where
  "parse_atom [] = None"
| "parse_atom (c # r) =
     (if c = bslash then
        (case r of [] \<Rightarrow> None | d # r' \<Rightarrow> if d = CHR ''d'' then Some (Digit, r') else None)
      else if c = CHR ''['' then
        (case parse_ranges r of
           None \<Rightarrow> None
         | Some (rs, rest) \<Rightarrow> if rs = [] then None else Some (Bracket rs, rest))
      else if c \<in> set meta_chars then None
      else Some (Literal c, r))"

text \<open>The checks the parser makes on \<^verbatim>\<open>{min,max}\<close>, in its order.\<close>

definition check_repeat :: "nat \<Rightarrow> nat \<Rightarrow> string \<Rightarrow> error + ((nat \<times> nat option) \<times> string)" where
  "check_repeat lo hi rest =
     (if lo \<ge> MAXREPEAT then Inl OverflowError
      else if hi \<ge> MAXREPEAT then Inl OverflowError
      else if hi < lo then Inl InvalidSpecification
      else Inr ((lo, Some hi), rest))"

definition parse_quant :: "string \<Rightarrow> error + ((nat \<times> nat option) \<times> string)" where
  "parse_quant s =
     (case s of
        [] \<Rightarrow> Inr ((1, Some 1), [])
      | c # r \<Rightarrow>
          if c = CHR ''*'' then Inr ((0, None), r)
          else if c = CHR ''{'' then
            (let lo = takeWhile is_digit r; r1 = dropWhile is_digit r in
             if lo = [] then Inl OutsideFragment
             else (case r1 of
                     [] \<Rightarrow> Inl OutsideFragment
                   | d # r2 \<Rightarrow>
                       if d = CHR ''}'' then check_repeat (decimal_value lo) (decimal_value lo) r2
                       else if d = CHR '','' then
                         (let hi = takeWhile is_digit r2; r3 = dropWhile is_digit r2 in
                          if hi = [] then Inl OutsideFragment
                          else (case r3 of
                                  [] \<Rightarrow> Inl OutsideFragment
                                | e # r4 \<Rightarrow>
                                    if e = CHR ''}''
                                    then check_repeat (decimal_value lo) (decimal_value hi) r4
                                    else Inl OutsideFragment))
                       else Inl OutsideFragment))
          else Inr ((1, Some 1), s))"

lemma parse_ranges_shorter:
  "parse_ranges s = Some (rs, rest) \<Longrightarrow> length rest < length s"
proof (induction s arbitrary: rs rest rule: parse_ranges.induct)
  case 1
  then show ?case by simp
next
  case (2 a r)
  show ?case
  proof (cases "a = CHR '']''")
    case True
    with 2(2) show ?thesis by simp
  next
    case False
    with 2(2) obtain m t where r: "r = m # t"
      by (cases r) auto
    with 2(2) False obtain b r' where t: "t = b # r'"
      by (cases t) auto
    from 2(2) False r t
    have c: "m = CHR ''-'' \<and> is_alnum a \<and> is_alnum b \<and> (of_char a :: nat) \<le> of_char b"
      by (auto split: if_splits)
    with 2(2) False r t obtain rs' where p: "parse_ranges r' = Some (rs', rest)"
      by (auto split: option.splits)
    have "length rest < length r'"
      by (rule 2(1) [OF False r t c p])
    with r t show ?thesis by simp
  qed
qed

lemma parse_atom_shorter:
  "parse_atom s = Some (a, rest) \<Longrightarrow> length rest < length s"
  by (cases s) (auto split: if_splits list.splits option.splits dest: parse_ranges_shorter)

lemma length_dropWhile_le_own: "length (dropWhile P xs) \<le> length xs"
  by (induction xs) auto

lemma parse_quant_shorter:
  "parse_quant s = Inr (q, rest) \<Longrightarrow> length rest \<le> length s"
proof (cases s)
  case Nil
  assume "parse_quant s = Inr (q, rest)"
  with Nil show ?thesis by (simp add: parse_quant_def)
next
  case (Cons c r)
  assume h: "parse_quant s = Inr (q, rest)"
  have d1: "\<And>x ys. dropWhile is_digit r = x # ys \<Longrightarrow> length ys < length r"
    using length_dropWhile_le_own [of is_digit r] by simp
  have d2: "\<And>x ys y zs. dropWhile is_digit r = x # ys \<Longrightarrow> dropWhile is_digit ys = y # zs
      \<Longrightarrow> length zs < length r"
    using length_dropWhile_le_own [of is_digit r] length_dropWhile_le_own [of is_digit]
    by (metis d1 impossible_Cons less_le_trans linorder_not_less order_less_imp_le)
  from h Cons show ?thesis
    by (auto simp: parse_quant_def check_repeat_def Let_def
        split: if_splits list.splits dest: d1 d2)
qed

function parse_items :: "string \<Rightarrow> error + (item list \<times> bool)" where
  "parse_items s =
     (if s = [] then Inr ([], False)
      else if s = ''$'' then Inr ([], True)
      else (case parse_atom s of
              None \<Rightarrow> Inl OutsideFragment
            | Some (a, r) \<Rightarrow>
                (case parse_quant r of
                   Inl e \<Rightarrow> Inl e
                 | Inr ((lo, hi), r') \<Rightarrow>
                     (case parse_items r' of
                        Inl e \<Rightarrow> Inl e
                      | Inr (is, eol) \<Rightarrow> Inr (Rep a lo hi # is, eol)))))"
  by pat_completeness auto
termination
proof (relation "measure length")
  show "wf (measure length)" by simp
next
  fix s :: string and x2 a r x2a q r' lo hi
  assume "parse_atom s = Some x2" "(a, r) = x2" "parse_quant r = Inr x2a" "(q, r') = x2a"
  then have "length r < length s" "length r' \<le> length r"
    using parse_atom_shorter [of s a r] parse_quant_shorter [of r q r'] by auto
  then show "(r', s) \<in> measure length" by simp
qed

declare parse_items.simps [simp del]

text \<open>\<^verbatim>\<open>re.compile(source)\<close>\<close>

definition re_compile :: "string \<Rightarrow> error + regex" where
  "re_compile s =
     (let bol = (s \<noteq> [] \<and> hd s = CHR ''^'');
          body = (if bol then tl s else s)
      in (case parse_items body of
            Inl e \<Rightarrow> Inl e
          | Inr (is, eol) \<Rightarrow> Inr (Regex bol is eol)))"

fun atom_ok :: "atom \<Rightarrow> char \<Rightarrow> bool" where
  "atom_ok Digit c = is_digit c"
| "atom_ok (Bracket rs) c = list_ex (\<lambda>(lo, hi). in_range lo hi c) rs"
| "atom_ok (Literal l) c = (c = l)"

text \<open>
  Matching from the start of the string. A repeat may stop anywhere between its bounds
  (the engine backtracks over these choices), so the matcher lists every remainder that
  a choice can leave.
\<close>

definition match_rep :: "atom \<Rightarrow> nat \<Rightarrow> nat option \<Rightarrow> string \<Rightarrow> string list" where
  "match_rep a lo hi s =
     (let run = length (takeWhile (atom_ok a) s);
          top = (case hi of None \<Rightarrow> run | Some h \<Rightarrow> min h run)
      in map (\<lambda>k. drop k s) [lo ..< Suc top])"

fun match_items :: "item list \<Rightarrow> string \<Rightarrow> string list" where
  "match_items [] s = [s]"
| "match_items (Rep a lo hi # is) s = concat (map (match_items is) (match_rep a lo hi s))"

text \<open>
  \<^verbatim>\<open>regex.match(s)\<close> as a truth value (a match object or \<^verbatim>\<open>None\<close>). Without a trailing
  \<^verbatim>\<open>$\<close> any remainder may follow the match; \<^verbatim>\<open>$\<close> matches at the end of the string and also
  just before a newline that ends the string.
\<close>

fun re_match :: "regex \<Rightarrow> string \<Rightarrow> bool" where
  "re_match (Regex bol is eol) s =
     list_ex (\<lambda>r. \<not> eol \<or> r = [] \<or> r = [newline]) (match_items is s)"

section \<open>Pattern compiler\<close>

definition spec_to_re :: "(char \<times> string) list" where
  "spec_to_re =
     [(CHR ''n'', bslash # ''d''),
      (CHR ''a'', ''[A-Z]''),
      (CHR ''c'', ''[A-Za-z0-9]''),
      (CHR ''e'', '' '')]"

text \<open>
  One attempt to match \<^verbatim>\<open>(\d+)(!)?([nace])\<close> at the start of a string: the groups and the
  rest. The digits are taken greedily; giving one back never helps, since a digit is
  neither \<^verbatim>\<open>!\<close> nor a type character.
\<close>

definition match_clause :: "string \<Rightarrow> ((string \<times> bool \<times> char) \<times> string) option" where
  "match_clause s =
     (let ds = takeWhile is_digit s; r = dropWhile is_digit s in
      if ds = [] then None
      else (case r of
              [] \<Rightarrow> None
            | x # r1 \<Rightarrow>
                if x = CHR ''!'' then
                  (case r1 of
                     [] \<Rightarrow> None
                   | t # r2 \<Rightarrow> if t \<in> set (map fst spec_to_re) then Some ((ds, True, t), r2) else None)
                else if x \<in> set (map fst spec_to_re) then Some ((ds, False, x), r1)
                else None))"

text \<open>The callback \<^verbatim>\<open>convert\<close>; group 3 is always a key of the table.\<close>

definition convert :: "string \<times> bool \<times> char \<Rightarrow> string" where
  "convert m =
     (case m of (ds, bang, t) \<Rightarrow>
        (case map_of spec_to_re t of
           None \<Rightarrow> []
         | Some cls \<Rightarrow> cls @ (if bang then ''{'' @ ds @ ''}'' else ''{1,'' @ ds @ ''}'')))"

lemma match_clause_shorter:
  "match_clause s = Some (m, rest) \<Longrightarrow> length rest < length s"
  using length_dropWhile_le_own [of is_digit s]
  by (auto simp: match_clause_def Let_def split: if_splits list.splits)

text \<open>\<^verbatim>\<open>re.sub(spec_re, convert, s)\<close>: every clause found from left to right is replaced,
  any other character is kept.\<close>

function re_sub :: "string \<Rightarrow> string" where
  "re_sub [] = []"
| "re_sub (c # cs) =
     (case match_clause (c # cs) of
        None \<Rightarrow> c # re_sub cs
      | Some (m, rest) \<Rightarrow> convert m @ re_sub rest)"
  by pat_completeness auto
termination
proof (relation "measure length")
  show "wf (measure length)" by simp
next
  fix c :: char and cs :: string
  show "(cs, c # cs) \<in> measure length" by simp
next
  fix c :: char and cs :: string and x2 m rest
  assume "match_clause (c # cs) = Some x2" "(m, rest) = x2"
  then show "(rest, c # cs) \<in> measure length"
    using match_clause_shorter [of "c # cs" m rest] by auto
qed

section \<open>Country specifications\<close>

text \<open>
  A specification is the dictionary the registry holds for a country; \<open>regex\<close> is the key
  that \<^verbatim>\<open>add_bban_regex\<close> adds. The registry itself (the table and its \<^verbatim>\<open>manipulate\<close> hook)
  is not among the sources: the table is a parameter \<open>reg\<close> of everything that reads it.
\<close>

record iban_spec =
  iban_length :: int
  bban_spec :: string
  positions :: "string \<rightharpoonup> (int \<times> int)"
  regex :: "regex option"

type_synonym registry = "string \<rightharpoonup> iban_spec"

text \<open>The expression \<^verbatim>\<open>re.compile('^%s$' % re.sub(spec_re, convert, bban_spec))\<close> of
  \<^verbatim>\<open>add_bban_regex\<close>, as a function of the pattern.\<close>

definition compile_pattern :: "string \<Rightarrow> error + regex" where
  "compile_pattern pattern = re_compile (''^'' @ re_sub pattern @ ''$'')"

definition add_bban_regex :: "iban_spec \<Rightarrow> error + iban_spec" where
  "add_bban_regex sp =
     (case compile_pattern (bban_spec sp) of
        Inl e \<Rightarrow> Inl e
      | Inr r \<Rightarrow> Inr (sp\<lparr>regex := Some r\<rparr>))"

definition get_iban_spec :: "registry \<Rightarrow> string \<Rightarrow> error + iban_spec" where
  "get_iban_spec reg cc = (case reg cc of None \<Rightarrow> Inl (UnknownCountry cc) | Some sp \<Rightarrow> Inr sp)"

definition code_length :: "iban_spec \<Rightarrow> string \<Rightarrow> error + int" where
  "code_length sp code_type =
     (case positions sp code_type of
        None \<Rightarrow> Inl (KeyError code_type)
      | Some (start, end) \<Rightarrow> Inr (end - start))"

section \<open>Validation, construction and generation\<close>

definition spec :: "registry \<Rightarrow> iban \<Rightarrow> error + iban_spec" where
  "spec reg x = get_iban_spec reg (country_code x)"

definition characters_re :: string where
  "characters_re = ''[A-Z]{2}'' @ bslash # ''d{2}[A-Z]*''"

definition validate_characters :: "iban \<Rightarrow> error + unit" where
  "validate_characters x =
     (case re_compile characters_re of
        Inl e \<Rightarrow> Inl e
      | Inr r \<Rightarrow> if \<not> re_match r (compact x) then Inl InvalidCharacters else Inr ())"

definition validate_length :: "registry \<Rightarrow> iban \<Rightarrow> error + unit" where
  "validate_length reg x =
     (case spec reg x of
        Inl e \<Rightarrow> Inl e
      | Inr sp \<Rightarrow> if iban_length sp \<noteq> length_iban x then Inl InvalidLength else Inr ())"

definition validate_format :: "registry \<Rightarrow> iban \<Rightarrow> error + unit" where
  "validate_format reg x =
     (case spec reg x of
        Inl e \<Rightarrow> Inl e
      | Inr sp \<Rightarrow>
          (case regex sp of
             None \<Rightarrow> Inl (KeyError ''regex'')
           | Some r \<Rightarrow>
               if \<not> re_match r (bban x) then Inl (InvalidBBANStructure (bban x) (bban_spec sp))
               else Inr ()))"

definition validate :: "registry \<Rightarrow> iban \<Rightarrow> error + bool" where
  "validate reg x =
     (case validate_characters x of
        Inl e \<Rightarrow> Inl e
      | Inr _ \<Rightarrow>
          (case validate_length reg x of
             Inl e \<Rightarrow> Inl e
           | Inr _ \<Rightarrow>
               (case validate_format reg x of
                  Inl e \<Rightarrow> Inl e
                | Inr _ \<Rightarrow>
                    (case validate_checksum x of
                       Inl e \<Rightarrow> Inl e
                     | Inr _ \<Rightarrow> Inr True))))"

text \<open>The constructor \<^verbatim>\<open>IBAN(iban, allow_invalid)\<close>.\<close>

definition iban_init :: "registry \<Rightarrow> string \<Rightarrow> bool \<Rightarrow> error + iban" where
  "iban_init reg s allow_invalid =
     (case parse (base_init s) of
        Inl e \<Rightarrow> Inl e
      | Inr x \<Rightarrow>
          if \<not> allow_invalid
          then (case validate reg x of Inl e \<Rightarrow> Inl e | Inr _ \<Rightarrow> Inr x)
          else Inr x)"

definition generate :: "registry \<Rightarrow> string \<Rightarrow> string \<Rightarrow> string \<Rightarrow> error + iban" where
  "generate reg cc bank_code account_code =
     (case get_iban_spec reg cc of
        Inl e \<Rightarrow> Inl e
      | Inr sp \<Rightarrow>
     (case code_length sp ''bank_code'' of
        Inl e \<Rightarrow> Inl e
      | Inr bank_code_length \<Rightarrow>
     (case code_length sp ''branch_code'' of
        Inl e \<Rightarrow> Inl e
      | Inr branch_code_length \<Rightarrow>
     (let bank_and_branch_code_length = bank_code_length + branch_code_length in
     (case code_length sp ''account_code'' of
        Inl e \<Rightarrow> Inl e
      | Inr account_code_length \<Rightarrow>
          if int (length bank_code) > bank_and_branch_code_length
          then Inl (CodeTooLong ''Bank'' bank_and_branch_code_length)
          else if int (length account_code) > account_code_length
          then Inl (CodeTooLong ''Account'' account_code_length)
          else iban_init reg
                 (cc @ ''??'' @ rjust bank_code bank_and_branch_code_length (CHR ''0'')
                     @ rjust account_code account_code_length (CHR ''0''))
                 False)))))"

section \<open>The German specification of the scenarios\<close>

definition de_raw :: iban_spec where
  "de_raw = \<lparr>iban_length = 22, bban_spec = ''8!n10!n'',
             positions = [''bank_code'' \<mapsto> (0, 8), ''branch_code'' \<mapsto> (8, 8),
                          ''account_code'' \<mapsto> (8, 18)],
             regex = None\<rparr>"

definition de_registry :: registry where
  "de_registry = (case add_bban_regex de_raw of Inl e \<Rightarrow> Map.empty | Inr sp \<Rightarrow> [''DE'' \<mapsto> sp])"

section \<open>The pattern language, as the specification words it\<close>

text \<open>
  A clause is a count (its decimal digits), the optional \<open>!\<close> and a type character; a
  pattern is a sequence of clauses. These definitions follow the specification's
  description of the language and are what the compiled matcher is compared with:
  without \<open>!\<close> a clause stands for 1 to \<open>count\<close> characters of its class, with \<open>!\<close> for
  exactly \<open>count\<close>, and the clauses concatenate from left to right.
\<close>

type_synonym clause = "string \<times> bool \<times> char"

definition clause_count :: "clause \<Rightarrow> nat" where
  "clause_count c = decimal_value (fst c)"

definition clause_bang :: "clause \<Rightarrow> bool" where
  "clause_bang c = fst (snd c)"

definition clause_type :: "clause \<Rightarrow> char" where
  "clause_type c = snd (snd c)"

definition wf_clause :: "clause \<Rightarrow> bool" where
  "wf_clause c = (fst c \<noteq> [] \<and> list_all is_digit (fst c) \<and> clause_type c \<in> set ''nace'')"

definition clause_str :: "clause \<Rightarrow> string" where
  "clause_str c = fst c @ (if clause_bang c then ''!'' else []) @ [clause_type c]"

definition pattern_of :: "clause list \<Rightarrow> string" where
  "pattern_of cl = concat (map clause_str cl)"

definition spec_char_class :: "char \<Rightarrow> char \<Rightarrow> bool" where
  "spec_char_class t ch =
     (if t = CHR ''n'' then is_digit ch
      else if t = CHR ''a'' then is_upper ch
      else if t = CHR ''c'' then is_alnum ch
      else ch = CHR '' '')"

definition spec_clause_accepts :: "clause \<Rightarrow> string \<Rightarrow> bool" where
  "spec_clause_accepts c seg =
     (list_all (spec_char_class (clause_type c)) seg
      \<and> (if clause_bang c then length seg = clause_count c
          else 1 \<le> length seg \<and> length seg \<le> clause_count c))"

fun spec_pattern_accepts :: "clause list \<Rightarrow> string \<Rightarrow> bool" where
  "spec_pattern_accepts [] s = (s = [])"
| "spec_pattern_accepts (c # cs) s =
     list_ex (\<lambda>k. spec_clause_accepts c (take k s) \<and> spec_pattern_accepts cs (drop k s))
       [0 ..< Suc (length s)]"

text \<open>The regex item a clause is compiled to.\<close>

definition clause_atom :: "char \<Rightarrow> atom" where
  "clause_atom t =
     (if t = CHR ''n'' then Digit
      else if t = CHR ''a'' then Bracket [(CHR ''A'', CHR ''Z'')]
      else if t = CHR ''c'' then
        Bracket [(CHR ''A'', CHR ''Z''), (CHR ''a'', CHR ''z''), (CHR ''0'', CHR ''9'')]
      else Literal (CHR '' ''))"

definition clause_item :: "clause \<Rightarrow> item" where
  "clause_item c =
     Rep (clause_atom (clause_type c)) (if clause_bang c then clause_count c else 1)
       (Some (clause_count c))"

text \<open>The clause that the regex engine refuses: without \<open>!\<close> its repeat is
  \<^verbatim>\<open>{1,count}\<close>, and a count of 0 puts the upper bound below the lower.\<close>

definition bad_clause :: "clause \<Rightarrow> bool" where
  "bad_clause c = (\<not> clause_bang c \<and> clause_count c = 0)"

text \<open>
  The table as the specification describes it: the BBAN pattern of every country is a
  sequence of one or more clauses with positive counts, and its matcher is the one
  \<^verbatim>\<open>add_bban_regex\<close> compiled from it when the table was loaded.
\<close>

definition wf_table :: "registry \<Rightarrow> bool" where
  "wf_table reg =
     (\<forall>cc sp. reg cc = Some sp \<longrightarrow>
        (\<exists>cl. cl \<noteq> [] \<and> list_all wf_clause cl
           \<and> list_all (\<lambda>c. 1 \<le> clause_count c \<and> clause_count c < MAXREPEAT) cl
           \<and> bban_spec sp = pattern_of cl
           \<and> (\<exists>m. compile_pattern (bban_spec sp) = Inr m \<and> regex sp = Some m)))"

section \<open>Characters, numerals and the numeric transform\<close>

lemma char_of_of_char_nat: "c = char_of (of_char c :: nat)"
  by simp

lemma in_map_of_char: "(of_char c :: nat) \<in> set (map of_char s) \<Longrightarrow> c \<in> set s"
  by auto

lemma is_digit_enum: "is_digit c \<Longrightarrow> c \<in> set ''0123456789''"
proof -
  assume "is_digit c"
  moreover have "\<And>n::nat. 48 \<le> n \<Longrightarrow> n \<le> 57 \<Longrightarrow> n \<in> {48..<58}"
    by simp
  ultimately have "(of_char c :: nat) \<in> {48..<58}"
    by (simp only: is_digit_def in_range_def of_char_Char) simp
  then have "(of_char c :: nat) \<in> set [48..<58]"
    by (simp only: set_upt)
  moreover have "map (of_char :: char \<Rightarrow> nat) ''0123456789'' = [48..<58]"
    by (simp add: upt_conv_Cons)
  ultimately show ?thesis
    using in_map_of_char [of c "''0123456789''"] by (simp only:)
qed

lemma is_upper_enum: "is_upper c \<Longrightarrow> c \<in> set ''ABCDEFGHIJKLMNOPQRSTUVWXYZ''"
proof -
  assume "is_upper c"
  moreover have "\<And>n::nat. 65 \<le> n \<Longrightarrow> n \<le> 90 \<Longrightarrow> n \<in> {65..<91}"
    by simp
  ultimately have "(of_char c :: nat) \<in> {65..<91}"
    by (simp only: is_upper_def in_range_def of_char_Char) simp
  then have "(of_char c :: nat) \<in> set [65..<91]"
    by (simp only: set_upt)
  moreover have "map (of_char :: char \<Rightarrow> nat) ''ABCDEFGHIJKLMNOPQRSTUVWXYZ'' = [65..<91]"
    by (simp add: upt_conv_Cons)
  ultimately show ?thesis
    using in_map_of_char [of c "''ABCDEFGHIJKLMNOPQRSTUVWXYZ''"] by (simp only:)
qed

lemma str_index_None: "c \<notin> set xs \<Longrightarrow> str_index xs c = None"
  by (induction xs) auto

lemma str_index_alphabet:
  "str_index alphabet c =
     (if is_digit c then Some (of_char c - 48)
      else if is_upper c then Some (of_char c - 55) else None)"
proof (cases "c \<in> set alphabet")
  case True
  have "list_all (\<lambda>c. str_index alphabet c =
     (if is_digit c then Some (of_char c - 48)
      else if is_upper c then Some (of_char c - 55) else None)) alphabet"
    by (simp add: alphabet_def is_digit_def is_upper_def in_range_def)
  with True show ?thesis
    by (simp add: list_all_iff)
next
  case False
  then have "\<not> is_digit c" "\<not> is_upper c"
    using is_digit_enum [of c] is_upper_enum [of c] by (auto simp: alphabet_def)
  with False show ?thesis
    by (simp add: str_index_None)
qed


lemma alphabet_iff: "c \<in> set alphabet \<longleftrightarrow> is_digit c \<or> is_upper c"
proof
  assume c: "c \<in> set alphabet"
  have "list_all (\<lambda>c. is_digit c \<or> is_upper c) alphabet"
    by (simp add: alphabet_def is_digit_def is_upper_def in_range_def)
  with c show "is_digit c \<or> is_upper c"
    by (simp add: list_all_iff)
next
  assume h: "is_digit c \<or> is_upper c"
  have "set ''0123456789'' \<subseteq> set alphabet" "set ''ABCDEFGHIJKLMNOPQRSTUVWXYZ'' \<subseteq> set alphabet"
    by (simp_all add: alphabet_def)
  with h show "c \<in> set alphabet"
    using is_digit_enum [of c] is_upper_enum [of c] by blast
qed

lemma digit_not_upper: "is_digit c \<Longrightarrow> \<not> is_upper c"
  by (simp add: is_digit_def is_upper_def in_range_def)

lemma str_nat_lt10: "n < 10 \<Longrightarrow> str_nat n = [digit_char n]"
  by (subst str_nat.simps) simp

lemma str_nat_lt100:
  "10 \<le> n \<Longrightarrow> n < 100 \<Longrightarrow> str_nat n = [digit_char (n div 10), digit_char (n mod 10)]"
  by (subst str_nat.simps) (simp add: str_nat_lt10)

lemma digit_char_eval: "k < 10 \<Longrightarrow> digit_char k = ''0123456789'' ! k"
proof -
  assume k: "k < 10"
  then have m: "k \<in> set [0, 1, 2, 3, 4, 5, 6, 7, 8, 9]"
    by simp arith
  have "list_all (\<lambda>k. (of_char (''0123456789'' ! k) :: nat) = 48 + k) [0, 1, 2, 3, 4, 5, 6, 7, 8, 9]"
    by simp
  with m have "(of_char (''0123456789'' ! k) :: nat) = 48 + k"
    unfolding list_all_iff by blast
  moreover from k have "(of_char (digit_char k) :: nat) = 48 + k"
    by (simp add: digit_char_def)
  ultimately have "(of_char (digit_char k) :: nat) = of_char (''0123456789'' ! k)"
    by simp
  then show ?thesis by simp
qed

lemma digit_value_digit_char: "k < 10 \<Longrightarrow> digit_value (digit_char k) = k"
  by (simp add: digit_value_def digit_char_def)

lemma is_digit_digit_char: "k < 10 \<Longrightarrow> is_digit (digit_char k)"
  by (simp add: is_digit_def in_range_def digit_char_def)

lemma foldl_decimal:
  "foldl (\<lambda>acc c. 10 * acc + digit_value c) a b
     = a * 10 ^ length b + foldl (\<lambda>acc c. 10 * acc + digit_value c) 0 b"
proof (induction b arbitrary: a)
  case Nil
  then show ?case by simp
next
  case (Cons x b)
  show ?case
    using Cons.IH [of "10 * a + digit_value x"] Cons.IH [of "digit_value x"]
    by (simp add: algebra_simps)
qed

lemma decimal_value_append:
  "decimal_value (a @ b) = decimal_value a * 10 ^ length b + decimal_value b"
  using foldl_decimal [of "decimal_value a" b] by (simp add: decimal_value_def)

text \<open>The value of a character in the alphabet.\<close>

lemma indices_char:
  "indices s = (if list_all (\<lambda>c. is_digit c \<or> is_upper c) s
                then Some (map (\<lambda>c. if is_digit c then of_char c - 48 else of_char c - 55) s)
                else None)"
  by (induction s) (auto simp: str_index_alphabet)

lemma digits_of_char:
  assumes "is_digit c \<or> is_upper c"
  shows "str_nat (if is_digit c then of_char c - 48 else of_char c - 55) \<noteq> []
       \<and> list_all is_digit (str_nat (if is_digit c then of_char c - 48 else of_char c - 55))
       \<and> decimal_value (str_nat (if is_digit c then of_char c - 48 else of_char c - 55))
           = (if is_digit c then of_char c - 48 else of_char c - 55)
       \<and> length (str_nat (if is_digit c then of_char c - 48 else of_char c - 55))
           = (if is_digit c then 1 else 2)"
proof (cases "is_digit c")
  case True
  have "\<And>n::nat. 48 \<le> n \<Longrightarrow> n \<le> 57 \<Longrightarrow> n - 48 < 10"
    by arith
  with True have "(of_char c :: nat) - 48 < 10"
    by (simp add: is_digit_def in_range_def)
  with True show ?thesis
    by (simp add: str_nat_lt10 is_digit_digit_char decimal_value_def digit_value_digit_char)
next
  case False
  have "\<And>n::nat. 65 \<le> n \<Longrightarrow> n \<le> 90 \<Longrightarrow> 10 \<le> n - 55 \<and> n - 55 < 100"
    by arith
  with False assms have "10 \<le> (of_char c :: nat) - 55" "(of_char c :: nat) - 55 < 100"
    by (simp_all add: is_upper_def in_range_def)
  moreover have "\<And>m::nat. m < 100 \<Longrightarrow> m div 10 < 10 \<and> m mod 10 < 10"
    by arith
  then have "((of_char c :: nat) - 55) div 10 < 10" "((of_char c :: nat) - 55) mod 10 < 10"
    using calculation by blast+
  ultimately show ?thesis
    using False
    by (simp add: str_nat_lt100 is_digit_digit_char decimal_value_def digit_value_digit_char)
qed

lemma numerify_digits:
  assumes "list_all (\<lambda>c. is_digit c \<or> is_upper c) s"
  shows "list_all is_digit (concat (map str_nat (map (\<lambda>c. if is_digit c then of_char c - 48 else of_char c - 55) s)))
       \<and> decimal_value (concat (map str_nat (map (\<lambda>c. if is_digit c then of_char c - 48 else of_char c - 55) s)))
           = foldl (\<lambda>acc c. if is_digit c then acc * 10 + (of_char c - 48)
                              else acc * 100 + (of_char c - 55)) 0 s"
  using assms
proof (induction s rule: rev_induct)
  case Nil
  then show ?case by (simp add: decimal_value_def)
next
  case (snoc c s)
  then have c: "is_digit c \<or> is_upper c" and s: "list_all (\<lambda>c. is_digit c \<or> is_upper c) s"
    by auto
  note d = digits_of_char [OF c]
  show ?case
    using snoc.IH [OF s] d
    by (cases "is_digit c") (auto simp: decimal_value_append)
qed

lemma numerify_eval:
  "numerify s =
     (if s \<noteq> [] \<and> list_all (\<lambda>c. is_digit c \<or> is_upper c) s
      then Inr (int (foldl (\<lambda>acc c. if is_digit c then acc * 10 + (of_char c - 48)
                                       else acc * 100 + (of_char c - 55)) 0 s))
      else Inl InvalidCharacter)"
proof (cases "list_all (\<lambda>c. is_digit c \<or> is_upper c) s")
  case False
  then show ?thesis by (simp add: numerify_def indices_char)
next
  case True
  show ?thesis
  proof (cases s)
    case Nil
    then show ?thesis by (simp add: numerify_def int_of_str_def)
  next
    case (Cons c cs)
    with True have "is_digit c \<or> is_upper c" by simp
    from digits_of_char [OF this] Cons
    have "concat (map str_nat (map (\<lambda>c. if is_digit c then of_char c - 48 else of_char c - 55) s)) \<noteq> []"
      by auto
    with True numerify_digits [OF True] Cons show ?thesis
      by (simp add: numerify_def indices_char int_of_str_def)
  qed
qed

section \<open>Accessors\<close>

text \<open>
  Claim C10. For an IBAN value whose compact string has at least 4 characters, the
  accessors are projections of \<open>compact\<close>: the country code is its first two characters,
  the checksum digits the next two, the BBAN the rest, and the three concatenated give
  \<open>compact\<close> back. The accessors are functions of the value and return no new value, so
  they cannot change it.
\<close>

theorem accessors_project_compact:
  assumes "4 \<le> length (compact x)"
  shows "country_code x = take 2 (compact x)
       \<and> checksum_digits x = take 2 (drop 2 (compact x))
       \<and> bban x = drop 4 (compact x)
       \<and> length (country_code x) = 2 \<and> length (checksum_digits x) = 2
       \<and> country_code x @ checksum_digits x @ bban x = compact x"
proof -
  have "take (2 + 2) (compact x) = take 2 (compact x) @ take 2 (drop 2 (compact x))"
    by (rule take_add)
  then have "take 2 (compact x) @ take 2 (drop 2 (compact x)) @ drop 4 (compact x) = compact x"
    by (metis append.assoc append_take_drop_id numeral_Bit0)
  with assms show ?thesis
    by (simp add: country_code_def checksum_digits_def bban_def get_component_def)
qed

theorem accessors_project_compact_witness:
  "4 \<le> length (compact \<lparr>code = ''DE89370400440532013000''\<rparr>)
   \<and> country_code \<lparr>code = ''DE89370400440532013000''\<rparr> = ''DE''
   \<and> checksum_digits \<lparr>code = ''DE89370400440532013000''\<rparr> = ''89''
   \<and> bban \<lparr>code = ''DE89370400440532013000''\<rparr> = ''370400440532013000''"
  using accessors_project_compact [of "\<lparr>code = ''DE89370400440532013000''\<rparr>"]
  by (simp add: compact_def)

section \<open>Checksum\<close>

text \<open>
  Claim C6. For a compact string over the alphabet \<open>[0-9A-Z]\<close> with at least 4
  characters, the numeric transform of the BBAN followed by the first four characters
  (country code and checksum digits) is defined, and the checksum check succeeds exactly
  when that number is 1 modulo 97; otherwise it fails with \<open>InvalidChecksum\<close>.
\<close>

theorem validate_checksum_iff:
  assumes "\<forall>c \<in> set (compact x). c \<in> set alphabet" and "4 \<le> length (compact x)"
  shows "\<exists>n. numerify (drop 4 (compact x) @ take 4 (compact x)) = Inr n
           \<and> (validate_checksum x = Inr () \<longleftrightarrow> n mod 97 = 1)
           \<and> (validate_checksum x = Inl InvalidChecksum \<longleftrightarrow> n mod 97 \<noteq> 1)"
proof -
  have b: "bban x = drop 4 (compact x)"
    by (simp add: bban_def get_component_def)
  have "\<forall>c \<in> set (drop 4 (compact x) @ take 4 (compact x)). is_digit c \<or> is_upper c"
    using assms(1) by (auto simp: alphabet_iff dest: in_set_dropD in_set_takeD)
  then have "list_all (\<lambda>c. is_digit c \<or> is_upper c) (drop 4 (compact x) @ take 4 (compact x))"
    unfolding list_all_iff .
  moreover have "drop 4 (compact x) @ take 4 (compact x) \<noteq> []"
    using assms(2) by auto
  ultimately obtain n where "numerify (drop 4 (compact x) @ take 4 (compact x)) = Inr n"
    by (simp add: numerify_eval)
  then show ?thesis
    by (auto simp: validate_checksum_def numeric_def b)
qed

theorem validate_checksum_iff_witness:
  "list_all (\<lambda>c. c \<in> set alphabet) (compact \<lparr>code = ''DE89370400440532013000''\<rparr>)
   \<and> 4 \<le> length (compact \<lparr>code = ''DE89370400440532013000''\<rparr>)
   \<and> numerify (drop 4 (compact \<lparr>code = ''DE89370400440532013000''\<rparr>)
        @ take 4 (compact \<lparr>code = ''DE89370400440532013000''\<rparr>)) = Inr 370400440532013000131489
   \<and> validate_checksum \<lparr>code = ''DE89370400440532013000''\<rparr> = Inr ()"
proof -
  let ?x = "\<lparr>code = ''DE89370400440532013000''\<rparr>"
  have h1: "\<forall>c \<in> set (compact ?x). c \<in> set alphabet"
    by (simp add: compact_def alphabet_def)
  have h2: "4 \<le> length (compact ?x)"
    by (simp add: compact_def)
  have n: "numerify (drop 4 (compact ?x) @ take 4 (compact ?x)) = Inr 370400440532013000131489"
    by (simp add: compact_def numerify_eval is_digit_def is_upper_def in_range_def)
  from validate_checksum_iff [OF h1 h2] n have "validate_checksum ?x = Inr ()"
    by simp
  with h1 h2 n show ?thesis by (simp add: list_all_iff)
qed

text \<open>
  Claim C2. The checksum digits are formatted with \<^verbatim>\<open>{:2d}\<close>, which pads with a space:
  for the BBAN \<open>000000010000000006\<close> and the country code \<open>DE\<close> the value is 6 and the
  result is a space followed by \<open>6\<close>, not two digits.
\<close>

theorem calc_checksum_digits_space_padded:
  "calc_checksum_digits \<lparr>code = ''DE??000000010000000006''\<rparr> = Inr '' 6''
   \<and> \<not> list_all is_digit '' 6''"
  by (simp add: calc_checksum_digits_def bban_def country_code_def get_component_def compact_def
      numerify_eval is_digit_def is_upper_def in_range_def format_2d_def rjust_def str_int_def
      str_nat_lt10 digit_char_eval)

section \<open>Evaluating the regex engine\<close>

lemma parse_items_Nil: "parse_items [] = Inr ([], False)"
  by (simp add: parse_items.simps)

lemma parse_items_Cons:
  "parse_items (c # cs) =
     (if c # cs = ''$'' then Inr ([], True)
      else (case parse_atom (c # cs) of
              None \<Rightarrow> Inl OutsideFragment
            | Some (a, r) \<Rightarrow>
                (case parse_quant r of
                   Inl e \<Rightarrow> Inl e
                 | Inr ((lo, hi), r') \<Rightarrow>
                     (case parse_items r' of
                        Inl e \<Rightarrow> Inl e
                      | Inr (is, eol) \<Rightarrow> Inr (Rep a lo hi # is, eol)))))"
  by (subst parse_items.simps) simp

lemmas char_eval = is_digit_def is_upper_def is_lower_def is_alnum_def in_range_def
  bslash_def newline_def meta_chars_def

lemmas re_eval = parse_items_Nil parse_items_Cons parse_quant_def check_repeat_def
  MAXREPEAT_def decimal_value_def digit_value_def re_compile_def char_eval

lemmas sub_eval = match_clause_def convert_def spec_to_re_def

lemma characters_re_compiled:
  "re_compile characters_re =
     Inr (Regex False
            [Rep (Bracket [(CHR ''A'', CHR ''Z'')]) 2 (Some 2), Rep Digit 2 (Some 2),
             Rep (Bracket [(CHR ''A'', CHR ''Z'')]) 0 None]
            False)"
  by (simp add: characters_re_def re_eval)

lemma de_registry_eq:
  "de_registry =
     [''DE'' \<mapsto> de_raw\<lparr>regex := Some (Regex True [Rep Digit 8 (Some 8), Rep Digit 10 (Some 10)] True)\<rparr>]"
  by (simp add: de_registry_def add_bban_regex_def compile_pattern_def de_raw_def re_eval sub_eval)

lemma length_takeWhile_ge:
  "n \<le> length (takeWhile P s) \<longleftrightarrow> n \<le> length s \<and> list_all P (take n s)"
proof (induction s arbitrary: n)
  case Nil
  then show ?case by simp
next
  case (Cons x s)
  then show ?case by (cases n) auto
qed

lemma match_rep_exact:
  "match_rep a n (Some n) s =
     (if n \<le> length s \<and> list_all (atom_ok a) (take n s) then [drop n s] else [])"
  by (auto simp: match_rep_def Let_def length_takeWhile_ge [symmetric] min_def)

lemma match_rep_star: "match_rep a 0 None s \<noteq> []"
  by (simp add: match_rep_def Let_def)

lemma atom_ok_upper: "atom_ok (Bracket [(CHR ''A'', CHR ''Z'')]) = is_upper"
  by (rule ext) (simp add: is_upper_def)

text \<open>What the character check of the source accepts: a prefix of two capitals and two
  digits; nothing is asked of the rest.\<close>

lemma atom_ok_digit: "atom_ok Digit = is_digit"
  by (rule ext) simp

lemma re_match_unanchored: "re_match (Regex b items False) s = (match_items items s \<noteq> [])"
  by (cases "match_items items s") simp_all

lemma validate_characters_eq:
  "validate_characters x =
     (if 4 \<le> length (compact x) \<and> list_all is_upper (take 2 (compact x))
           \<and> list_all is_digit (take 2 (drop 2 (compact x)))
      then Inr () else Inl InvalidCharacters)"
proof -
  have m: "\<And>r. match_items [Rep (Bracket [(CHR ''A'', CHR ''Z'')]) 0 None] r \<noteq> []"
    using match_rep_star by simp
  have "match_items [Rep (Bracket [(CHR ''A'', CHR ''Z'')]) 2 (Some 2), Rep Digit 2 (Some 2),
             Rep (Bracket [(CHR ''A'', CHR ''Z'')]) 0 None] (compact x) \<noteq> []
        \<longleftrightarrow> 4 \<le> length (compact x) \<and> list_all is_upper (take 2 (compact x))
           \<and> list_all is_digit (take 2 (drop 2 (compact x)))"
    using m [of "drop 4 (compact x)"]
    by (auto simp: match_rep_exact atom_ok_upper atom_ok_digit simp del: match_items.simps(2)
        simp add: match_items.simps(2) [of _ "2" "Some 2"])
  then show ?thesis
    by (simp add: validate_characters_def characters_re_compiled re_match_unanchored
        del: match_items.simps re_match.simps)
qed

section \<open>Concrete tables\<close>

lemmas iban_eval = bban_def country_code_def checksum_digits_def get_component_def compact_def
  length_iban_def spec_def get_iban_spec_def

lemma clean_literal: "clean ''DE??370400440532013000'' = ''DE??370400440532013000''"
  by (simp add: clean_def is_space_def to_upper_def is_lower_def in_range_def)

lemma de_valid: "validate de_registry \<lparr>code = ''DE89370400440532013000''\<rparr> = Inr True"
proof -
  have v1: "validate_characters \<lparr>code = ''DE89370400440532013000''\<rparr> = Inr ()"
    by (simp add: validate_characters_eq compact_def char_eval)
  have v2: "validate_length de_registry \<lparr>code = ''DE89370400440532013000''\<rparr> = Inr ()"
    by (simp add: validate_length_def iban_eval de_registry_eq de_raw_def)
  have v3: "validate_format de_registry \<lparr>code = ''DE89370400440532013000''\<rparr> = Inr ()"
    by (simp add: validate_format_def iban_eval de_registry_eq de_raw_def match_rep_exact char_eval)
  have v4: "validate_checksum \<lparr>code = ''DE89370400440532013000''\<rparr> = Inr ()"
    by (simp add: validate_checksum_def numeric_def iban_eval numerify_eval char_eval)
  show ?thesis
    by (simp add: validate_def v1 v2 v3 v4)
qed

lemma de_parse:
  "parse (base_init ''DE??370400440532013000'') = Inr \<lparr>code = ''DE89370400440532013000''\<rparr>"
  by (simp add: base_init_def clean_literal parse_def calc_checksum_digits_def iban_eval
      numerify_eval char_eval format_2d_def rjust_def str_int_def str_nat_lt100 digit_char_eval)

lemma de_placeholder:
  "iban_init de_registry ''DE??370400440532013000'' a = Inr \<lparr>code = ''DE89370400440532013000''\<rparr>"
  by (simp add: iban_init_def de_parse de_valid)

section \<open>The character check\<close>

text \<open>
  Claim C3. The character check matches \<^verbatim>\<open>[A-Z]{2}\d{2}[A-Z]*\<close> from the start of the
  string only: there is no end anchor and the final class has no digits, so whatever
  follows the first four characters is accepted. The string \<open>DE8937040044053201300!\<close>
  passes the character check, and validation reports the BBAN structure instead of the
  characters.
\<close>

theorem validate_characters_accepts_non_alphanumeric:
  "validate_characters \<lparr>code = ''DE8937040044053201300!''\<rparr> = Inr ()
   \<and> validate de_registry \<lparr>code = ''DE8937040044053201300!''\<rparr>
       = Inl (InvalidBBANStructure ''37040044053201300!'' ''8!n10!n'')"
proof -
  have v1: "validate_characters \<lparr>code = ''DE8937040044053201300!''\<rparr> = Inr ()"
    by (simp add: validate_characters_eq compact_def char_eval)
  have v2: "validate_length de_registry \<lparr>code = ''DE8937040044053201300!''\<rparr> = Inr ()"
    by (simp add: validate_length_def iban_eval de_registry_eq de_raw_def)
  have v3: "validate_format de_registry \<lparr>code = ''DE8937040044053201300!''\<rparr>
      = Inl (InvalidBBANStructure ''37040044053201300!'' ''8!n10!n'')"
    by (simp add: validate_format_def iban_eval de_registry_eq de_raw_def match_rep_exact char_eval)
  show ?thesis
    by (simp add: validate_def v1 v2 v3)
qed

section \<open>Construction from a placeholder\<close>

text \<open>
  Claim C8. When the checksum digits of the literal are \<open>??\<close>, construction replaces the
  stored string by country code, computed checksum digits and BBAN; a constructed value
  has exactly that compact string, with or without validation. The literal
  \<open>DE??370400440532013000\<close> yields the checksum digits \<open>89\<close> and the compact string
  \<open>DE89370400440532013000\<close>.
\<close>

theorem placeholder_recomputed:
  "(checksum_digits (base_init s) = ''??'' \<longrightarrow>
      iban_init reg s True =
        (case calc_checksum_digits (base_init s) of
           Inl e \<Rightarrow> Inl e
         | Inr d \<Rightarrow> Inr \<lparr>code = country_code (base_init s) @ d @ bban (base_init s)\<rparr>)
      \<and> (\<forall>y. iban_init reg s False = Inr y \<longrightarrow>
            (\<exists>d. calc_checksum_digits (base_init s) = Inr d
               \<and> compact y = country_code (base_init s) @ d @ bban (base_init s))))
   \<and> iban_init de_registry ''DE??370400440532013000'' False
       = Inr \<lparr>code = ''DE89370400440532013000''\<rparr>
   \<and> checksum_digits \<lparr>code = ''DE89370400440532013000''\<rparr> = ''89''
   \<and> compact \<lparr>code = ''DE89370400440532013000''\<rparr> = ''DE89370400440532013000''"
proof -
  have g: "checksum_digits (base_init s) = ''??'' \<Longrightarrow>
      iban_init reg s True =
        (case calc_checksum_digits (base_init s) of
           Inl e \<Rightarrow> Inl e
         | Inr d \<Rightarrow> Inr \<lparr>code = country_code (base_init s) @ d @ bban (base_init s)\<rparr>)"
    by (simp add: iban_init_def parse_def split: sum.splits)
  have h: "\<And>y. checksum_digits (base_init s) = ''??'' \<Longrightarrow> iban_init reg s False = Inr y \<Longrightarrow>
      \<exists>d. calc_checksum_digits (base_init s) = Inr d
         \<and> compact y = country_code (base_init s) @ d @ bban (base_init s)"
    by (auto simp: iban_init_def parse_def compact_def split: sum.splits)
  show ?thesis
    using g h by (simp add: de_placeholder checksum_digits_def get_component_def compact_def)
qed

theorem placeholder_recomputed_witness:
  "checksum_digits (base_init ''DE??370400440532013000'') = ''??''
   \<and> calc_checksum_digits (base_init ''DE??370400440532013000'') = Inr ''89''
   \<and> iban_init de_registry ''DE??370400440532013000'' True
       = Inr \<lparr>code = ''DE89370400440532013000''\<rparr>"
proof -
  have c: "checksum_digits (base_init ''DE??370400440532013000'') = ''??''"
    by (simp add: base_init_def clean_literal iban_eval)
  have d: "calc_checksum_digits (base_init ''DE??370400440532013000'') = Inr ''89''"
    by (simp add: base_init_def clean_literal calc_checksum_digits_def iban_eval
      numerify_eval char_eval format_2d_def rjust_def str_int_def str_nat_lt100 digit_char_eval)
  from placeholder_recomputed [of "''DE??370400440532013000''" de_registry] c d
  have "iban_init de_registry ''DE??370400440532013000'' True
       = Inr \<lparr>code = ''DE89370400440532013000''\<rparr>"
    by (simp add: base_init_def clean_literal iban_eval)
  with c d show ?thesis by simp
qed

section \<open>Generation\<close>

lemma rjust_length:
  "int (length s) \<le> w \<Longrightarrow> length (rjust s w c) = nat w"
  by (simp add: rjust_def)

lemma rjust_exact: "int (length s) = w \<Longrightarrow> rjust s w c = s"
  by (simp add: rjust_def)

text \<open>
  Claim C7. With \<open>bank_and_branch_length\<close> the sum of the bank and branch range lengths
  and \<open>account_length\<close> the account range length: a bank code longer than
  \<open>bank_and_branch_length\<close> (so one of length \<open>bank_and_branch_length + 1\<close>) raises
  \<open>CodeTooLong\<close>, and likewise an account code longer than \<open>account_length\<close>; codes within
  the widths are left-padded with \<open>0\<close> to exactly these widths and the constructor
  receives country code, \<open>??\<close>, padded bank code and padded account code; a code of
  exactly its width is left as it is.
\<close>

theorem generate_boundary:
  assumes "reg cc = Some sp"
    and "positions sp ''bank_code'' = Some (b_s, b_e)"
    and "positions sp ''branch_code'' = Some (r_s, r_e)"
    and "positions sp ''account_code'' = Some (a_s, a_e)"
  shows "(int (length bank) > (b_e - b_s) + (r_e - r_s) \<longrightarrow>
            generate reg cc bank acct = Inl (CodeTooLong ''Bank'' ((b_e - b_s) + (r_e - r_s))))
       \<and> (int (length bank) \<le> (b_e - b_s) + (r_e - r_s) \<and> int (length acct) > a_e - a_s \<longrightarrow>
            generate reg cc bank acct = Inl (CodeTooLong ''Account'' (a_e - a_s)))
       \<and> (int (length bank) \<le> (b_e - b_s) + (r_e - r_s) \<and> int (length acct) \<le> a_e - a_s \<longrightarrow>
            generate reg cc bank acct =
              iban_init reg
                (cc @ ''??''
                  @ (replicate (nat ((b_e - b_s) + (r_e - r_s)) - length bank) (CHR ''0'') @ bank)
                  @ (replicate (nat (a_e - a_s) - length acct) (CHR ''0'') @ acct))
                False
            \<and> length (replicate (nat ((b_e - b_s) + (r_e - r_s)) - length bank) (CHR ''0'') @ bank)
                = nat ((b_e - b_s) + (r_e - r_s))
            \<and> length (replicate (nat (a_e - a_s) - length acct) (CHR ''0'') @ acct)
                = nat (a_e - a_s))
       \<and> (int (length bank) = (b_e - b_s) + (r_e - r_s) \<longrightarrow>
            rjust bank ((b_e - b_s) + (r_e - r_s)) (CHR ''0'') = bank)
       \<and> (int (length acct) = a_e - a_s \<longrightarrow> rjust acct (a_e - a_s) (CHR ''0'') = acct)"
proof -
  have r: "\<And>s w. replicate (nat (w - int (length s))) (CHR ''0'') = replicate (nat w - length s) (CHR ''0'')"
    by (simp add: nat_diff_distrib')
  have l: "\<And>(n::nat) w. int n \<le> w \<Longrightarrow> nat w - n + n = nat w"
    by arith
  show ?thesis
    using assms
    by (simp add: generate_def get_iban_spec_def code_length_def rjust_def r l)
qed

theorem generate_boundary_witness:
  "generate de_registry ''DE'' ''370400440'' ''532013000'' = Inl (CodeTooLong ''Bank'' 8)
   \<and> generate de_registry ''DE'' ''37040044'' ''05320130001'' = Inl (CodeTooLong ''Account'' 10)
   \<and> generate de_registry ''DE'' ''37040044'' ''532013000''
       = Inr \<lparr>code = ''DE89370400440532013000''\<rparr>
   \<and> rjust ''37040044'' 8 (CHR ''0'') = ''37040044''"
proof -
  let ?sp = "de_raw\<lparr>regex := Some (Regex True [Rep Digit 8 (Some 8), Rep Digit 10 (Some 10)] True)\<rparr>"
  have h1: "de_registry ''DE'' = Some ?sp"
    by (simp add: de_registry_eq)
  have h2: "positions ?sp ''bank_code'' = Some (0, 8)"
    by (simp add: de_raw_def)
  have h3: "positions ?sp ''branch_code'' = Some (8, 8)"
    by (simp add: de_raw_def)
  have h4: "positions ?sp ''account_code'' = Some (8, 18)"
    by (simp add: de_raw_def)
  note g = generate_boundary [of de_registry "''DE''", OF h1 h2 h3 h4]
  have a: "generate de_registry ''DE'' ''370400440'' ''532013000'' = Inl (CodeTooLong ''Bank'' 8)"
    using g [of "''370400440''" "''532013000''"] by simp
  have b: "generate de_registry ''DE'' ''37040044'' ''05320130001'' = Inl (CodeTooLong ''Account'' 10)"
    using g [of "''37040044''" "''05320130001''"] by simp
  have c: "generate de_registry ''DE'' ''37040044'' ''532013000''
       = Inr \<lparr>code = ''DE89370400440532013000''\<rparr>"
    using g [of "''37040044''" "''532013000''"] by (simp add: de_placeholder)
  have d: "rjust ''37040044'' 8 (CHR ''0'') = ''37040044''"
    using g [of "''37040044''" "''532013000''"] by simp
  from a b c d show ?thesis by simp
qed

section \<open>The pattern compiler on well-formed clauses\<close>

lemma takeWhile_digits:
  "list_all is_digit ds \<Longrightarrow> \<not> is_digit x \<Longrightarrow> takeWhile is_digit (ds @ x # r) = ds"
  by (induction ds) auto

lemma dropWhile_digits:
  "list_all is_digit ds \<Longrightarrow> \<not> is_digit x \<Longrightarrow> dropWhile is_digit (ds @ x # r) = x # r"
  by (induction ds) auto

lemma type_char_cases:
  "t \<in> set ''nace'' \<Longrightarrow> t = CHR ''n'' \<or> t = CHR ''a'' \<or> t = CHR ''c'' \<or> t = CHR ''e''"
  by simp

lemma type_char_not_digit: "t \<in> set ''nace'' \<Longrightarrow> \<not> is_digit t \<and> t \<noteq> CHR ''!''"
  by (auto simp: char_eval)

lemma match_clause_wf:
  assumes "wf_clause c"
  shows "match_clause (clause_str c @ rest) = Some (c, rest)"
proof -
  obtain ds bang t where c: "c = (ds, bang, t)"
    by (cases c)
  from assms c have ds: "ds \<noteq> []" "list_all is_digit ds" and t: "t \<in> set ''nace''"
    by (simp_all add: wf_clause_def clause_type_def)
  note nd = type_char_not_digit [OF t]
  have key: "t \<in> set (map fst spec_to_re)"
    using t by (simp add: spec_to_re_def)
  have bd: "\<not> is_digit (CHR ''!'')"
    by (simp add: char_eval)
  show ?thesis
  proof (cases bang)
    case True
    then have s: "clause_str c @ rest = ds @ CHR ''!'' # t # rest"
      by (simp add: c clause_str_def clause_bang_def clause_type_def)
    show ?thesis
      unfolding s match_clause_def
      using ds key True
      by (simp add: takeWhile_digits [OF ds(2) bd] dropWhile_digits [OF ds(2) bd] c
          del: set_map)
  next
    case False
    then have s: "clause_str c @ rest = ds @ t # rest"
      by (simp add: c clause_str_def clause_bang_def clause_type_def)
    show ?thesis
      unfolding s match_clause_def
      using ds key False nd
      by (simp add: takeWhile_digits [of ds t] dropWhile_digits [of ds t] c
          del: set_map)
  qed
qed

lemma re_sub_clause:
  assumes "wf_clause c"
  shows "re_sub (clause_str c @ rest) = convert c @ re_sub rest"
proof -
  from assms have "clause_str c @ rest \<noteq> []"
    by (simp add: clause_str_def)
  then obtain x xs where x: "clause_str c @ rest = x # xs"
    by (cases "clause_str c @ rest") auto
  have "re_sub (x # xs) = convert c @ re_sub rest"
    using match_clause_wf [OF assms, of rest] by (simp add: x)
  then show ?thesis by (simp add: x)
qed

lemma re_sub_pattern:
  "list_all wf_clause cl \<Longrightarrow> re_sub (pattern_of cl) = concat (map convert cl)"
proof (induction cl)
  case Nil
  then show ?case by (simp add: pattern_of_def)
next
  case (Cons c cl)
  then have "re_sub (clause_str c @ pattern_of cl) = convert c @ concat (map convert cl)"
    using re_sub_clause [of c "pattern_of cl"] by simp
  then show ?case by (simp add: pattern_of_def)
qed

lemma parse_quant_exact:
  assumes "list_all is_digit ds" "ds \<noteq> []"
  shows "parse_quant (''{'' @ ds @ ''}'' @ rest)
           = check_repeat (decimal_value ds) (decimal_value ds) rest"
proof -
  have b: "\<not> is_digit (CHR ''}'')"
    by (simp add: char_eval)
  show ?thesis
    using assms(2)
    by (simp add: parse_quant_def takeWhile_digits [OF assms(1) b] dropWhile_digits [OF assms(1) b])
qed

lemma parse_quant_upto:
  assumes "list_all is_digit ds" "ds \<noteq> []"
  shows "parse_quant (''{1,'' @ ds @ ''}'' @ rest) = check_repeat 1 (decimal_value ds) rest"
proof -
  have b: "\<not> is_digit (CHR ''}'')"
    by (simp add: char_eval)
  have one: "is_digit (CHR ''1'')" "\<not> is_digit (CHR '','')"
    by (simp_all add: char_eval)
  have d1: "decimal_value ''1'' = 1"
    by (simp add: decimal_value_def digit_value_def)
  show ?thesis
    using assms(2) one d1
    by (simp add: parse_quant_def takeWhile_digits [OF assms(1) b] dropWhile_digits [OF assms(1) b])
qed

lemma parse_atom_clause:
  assumes "t \<in> set ''nace''"
  shows "\<exists>cls. map_of spec_to_re t = Some cls \<and> cls \<noteq> [] \<and> cls \<noteq> ''$''
           \<and> (\<forall>rest. parse_atom (cls @ rest) = Some (clause_atom t, rest))"
  using type_char_cases [OF assms]
  by (auto simp: spec_to_re_def clause_atom_def char_eval)

lemma parse_items_clause:
  assumes "wf_clause c" "clause_count c < MAXREPEAT"
  shows "parse_items (convert c @ rest) =
           (if bad_clause c then Inl InvalidSpecification
            else (case parse_items rest of
                    Inl e \<Rightarrow> Inl e
                  | Inr (is, eol) \<Rightarrow> Inr (clause_item c # is, eol)))"
proof -
  obtain ds bang t where c: "c = (ds, bang, t)"
    by (cases c)
  from assms c have ds: "list_all is_digit ds" "ds \<noteq> []" and t: "t \<in> set ''nace''"
    and n: "decimal_value ds < MAXREPEAT"
    by (simp_all add: wf_clause_def clause_type_def clause_count_def)
  from parse_atom_clause [OF t] obtain cls where cls: "map_of spec_to_re t = Some cls"
    "cls \<noteq> []" "cls \<noteq> ''$''" "\<And>rest. parse_atom (cls @ rest) = Some (clause_atom t, rest)"
    by blast
  let ?q = "if bang then ''{'' @ ds @ ''}'' else ''{1,'' @ ds @ ''}''"
  have conv: "convert c @ rest = cls @ ?q @ rest"
    by (simp add: convert_def c cls(1))
  from cls(2) obtain x xs where x: "cls = x # xs"
    by (cases cls) auto
  have nd: "(x # xs) @ ?q @ rest \<noteq> ''$''"
    by (cases xs) auto
  have q: "parse_quant (?q @ rest) =
      (if bang then check_repeat (decimal_value ds) (decimal_value ds) rest
       else check_repeat 1 (decimal_value ds) rest)"
    using parse_quant_exact [OF ds, of rest] parse_quant_upto [OF ds, of rest] by simp
  have "parse_items ((x # xs) @ ?q @ rest) =
      (case parse_quant (?q @ rest) of
         Inl e \<Rightarrow> Inl e
       | Inr ((lo, hi), r') \<Rightarrow>
           (case parse_items r' of
              Inl e \<Rightarrow> Inl e
            | Inr (is, eol) \<Rightarrow> Inr (Rep (clause_atom t) lo hi # is, eol)))"
    using cls(4) [of "?q @ rest"] nd
    by (simp only: append_Cons parse_items_Cons x) simp
  then have pi: "parse_items (convert c @ rest) =
      (case (if bang then check_repeat (decimal_value ds) (decimal_value ds) rest
             else check_repeat 1 (decimal_value ds) rest) of
         Inl e \<Rightarrow> Inl e
       | Inr ((lo, hi), r') \<Rightarrow>
           (case parse_items r' of
              Inl e \<Rightarrow> Inl e
            | Inr (is, eol) \<Rightarrow> Inr (Rep (clause_atom t) lo hi # is, eol)))"
    by (simp only: conv x q)
  have b: "bad_clause c = (\<not> bang \<and> decimal_value ds = 0)"
    and i: "clause_item c = Rep (clause_atom t) (if bang then decimal_value ds else 1)
        (Some (decimal_value ds))"
    by (simp_all add: bad_clause_def clause_item_def clause_bang_def clause_count_def
        clause_type_def c)
  show ?thesis
  proof (cases bang)
    case True
    with n show ?thesis
      by (simp add: pi b i check_repeat_def split: sum.splits)
  next
    case False
    with n show ?thesis
      by (simp add: pi b i check_repeat_def MAXREPEAT_def split: sum.splits)
  qed
qed

lemma parse_items_pattern:
  assumes "list_all wf_clause cl" "list_all (\<lambda>c. clause_count c < MAXREPEAT) cl"
  shows "parse_items (concat (map convert cl) @ ''$'') =
           (if list_ex bad_clause cl then Inl InvalidSpecification
            else Inr (map clause_item cl, True))"
  using assms
proof (induction cl)
  case Nil
  then show ?case by (simp add: parse_items_Cons)
next
  case (Cons c cl)
  then have c: "wf_clause c" "clause_count c < MAXREPEAT"
    and ih: "parse_items (concat (map convert cl) @ ''$'') =
           (if list_ex bad_clause cl then Inl InvalidSpecification
            else Inr (map clause_item cl, True))"
    by simp_all
  show ?case
    using parse_items_clause [OF c, of "concat (map convert cl) @ ''$''"]
    by (simp add: ih)
qed

lemma compile_pattern_clauses:
  assumes "list_all wf_clause cl" "list_all (\<lambda>c. clause_count c < MAXREPEAT) cl"
  shows "compile_pattern (pattern_of cl) =
           (if list_ex bad_clause cl then Inl InvalidSpecification
            else Inr (Regex True (map clause_item cl) True))"
  using parse_items_pattern [OF assms]
  by (simp add: compile_pattern_def re_compile_def re_sub_pattern [OF assms(1)])

section \<open>What the compiled matcher accepts\<close>

lemma match_rep_mem:
  "r \<in> set (match_rep a lo (Some hi) s) \<longleftrightarrow>
     (\<exists>k. lo \<le> k \<and> k \<le> hi \<and> k \<le> length s \<and> list_all (atom_ok a) (take k s) \<and> r = drop k s)"
proof -
  have "set (match_rep a lo (Some hi) s)
      = (\<lambda>k. drop k s) ` {lo ..< Suc (min hi (length (takeWhile (atom_ok a) s)))}"
    by (simp only: match_rep_def Let_def option.case set_map set_upt)
  then have "r \<in> set (match_rep a lo (Some hi) s) \<longleftrightarrow>
      (\<exists>k. lo \<le> k \<and> k \<le> hi \<and> k \<le> length (takeWhile (atom_ok a) s) \<and> r = drop k s)"
    by (simp only: image_iff Bex_def atLeastLessThan_iff less_Suc_eq_le min.bounded_iff) blast
  then show ?thesis
    by (simp only: length_takeWhile_ge) blast
qed

lemma atom_ok_clause:
  "t \<in> set ''nace'' \<Longrightarrow> atom_ok (clause_atom t) ch = spec_char_class t ch"
  by (auto simp: clause_atom_def spec_char_class_def is_alnum_def is_digit_def is_upper_def
      is_lower_def)

lemma spec_pattern_accepts_Cons:
  "spec_pattern_accepts (c # cs) p \<longleftrightarrow>
     (\<exists>k\<le>length p. spec_clause_accepts c (take k p) \<and> spec_pattern_accepts cs (drop k p))"
  by (simp only: spec_pattern_accepts.simps list_ex_iff set_upt Bex_def atLeastLessThan_iff
      less_Suc_eq_le) simp

lemma clause_item_mem:
  assumes "wf_clause c"
  shows "r \<in> set (match_items (clause_item c # items) s) \<longleftrightarrow>
     (\<exists>k\<le>length s. spec_clause_accepts c (take k s) \<and> r \<in> set (match_items items (drop k s)))"
proof -
  from assms have t: "clause_type c \<in> set ''nace''"
    by (simp add: wf_clause_def)
  have cls: "\<And>seg. list_all (atom_ok (clause_atom (clause_type c))) seg
      = list_all (spec_char_class (clause_type c)) seg"
    using atom_ok_clause [OF t] by (simp add: list_all_iff)
  have "r \<in> set (match_items (clause_item c # items) s) \<longleftrightarrow>
      (\<exists>r'. r' \<in> set (match_rep (clause_atom (clause_type c))
                 (if clause_bang c then clause_count c else 1) (Some (clause_count c)) s)
            \<and> r \<in> set (match_items items r'))"
    by (auto simp: clause_item_def)
  also have "\<dots> \<longleftrightarrow>
      (\<exists>k. (if clause_bang c then clause_count c else 1) \<le> k \<and> k \<le> clause_count c
          \<and> k \<le> length s \<and> list_all (spec_char_class (clause_type c)) (take k s)
          \<and> r \<in> set (match_items items (drop k s)))"
    by (simp only: match_rep_mem cls) blast
  also have "\<dots> \<longleftrightarrow>
      (\<exists>k\<le>length s. spec_clause_accepts c (take k s) \<and> r \<in> set (match_items items (drop k s)))"
    by (rule iffI; clarify; rule_tac x = k in exI;
        simp add: spec_clause_accepts_def min_def split: if_splits)
  finally show ?thesis .
qed

lemma match_items_pattern:
  assumes "list_all wf_clause cl"
  shows "r \<in> set (match_items (map clause_item cl) s) \<longleftrightarrow>
           (\<exists>p. s = p @ r \<and> spec_pattern_accepts cl p)"
  using assms
proof (induction cl arbitrary: s)
  case Nil
  then show ?case by auto
next
  case (Cons c cl)
  then have c: "wf_clause c"
    and ih: "\<And>s. r \<in> set (match_items (map clause_item cl) s) \<longleftrightarrow>
           (\<exists>p. s = p @ r \<and> spec_pattern_accepts cl p)"
    by simp_all
  show ?case
  proof
    assume "r \<in> set (match_items (map clause_item (c # cl)) s)"
    then obtain k where k: "k \<le> length s" "spec_clause_accepts c (take k s)"
      "r \<in> set (match_items (map clause_item cl) (drop k s))"
      using clause_item_mem [OF c, of r "map clause_item cl" s] by auto
    from k(3) ih obtain p where p: "drop k s = p @ r" "spec_pattern_accepts cl p"
      by blast
    have s: "s = (take k s @ p) @ r"
      using p(1) by (metis append.assoc append_take_drop_id)
    have "spec_pattern_accepts (c # cl) (take k s @ p)"
      unfolding spec_pattern_accepts_Cons
      using k(1,2) p(2) by (intro exI [of _ k]) (simp add: min_def)
    with s show "\<exists>p. s = p @ r \<and> spec_pattern_accepts (c # cl) p"
      by blast
  next
    assume "\<exists>p. s = p @ r \<and> spec_pattern_accepts (c # cl) p"
    then obtain p k where p: "s = p @ r" "k \<le> length p" "spec_clause_accepts c (take k p)"
      "spec_pattern_accepts cl (drop k p)"
      unfolding spec_pattern_accepts_Cons by blast
    from p(1,2) have t: "take k s = take k p" and d: "drop k s = drop k p @ r"
      by simp_all
    from d p(4) ih have "r \<in> set (match_items (map clause_item cl) (drop k s))"
      by blast
    moreover from p(1,2) have "k \<le> length s"
      by simp
    ultimately show "r \<in> set (match_items (map clause_item (c # cl)) s)"
      using clause_item_mem [OF c, of r "map clause_item cl" s] p(3) t by auto
  qed
qed

lemma re_match_pattern:
  assumes "list_all wf_clause cl"
  shows "re_match (Regex True (map clause_item cl) True) s \<longleftrightarrow>
           spec_pattern_accepts cl s \<or> (\<exists>p. s = p @ [newline] \<and> spec_pattern_accepts cl p)"
  using match_items_pattern [OF assms, of "[]" s] match_items_pattern [OF assms, of "[newline]" s]
  by (auto simp: list_ex_iff)


lemma spec_clause_empty: "spec_clause_accepts c [] \<longleftrightarrow> clause_bang c \<and> clause_count c = 0"
  by (auto simp: spec_clause_accepts_def)

lemma spec_pattern_empty:
  "spec_pattern_accepts cl [] \<longleftrightarrow> list_all (\<lambda>c. spec_clause_accepts c []) cl"
  by (induction cl) (simp_all add: spec_pattern_accepts_Cons del: spec_pattern_accepts.simps(2))



lemma re_match_pattern_empty:
  assumes "list_all wf_clause cl"
    and "list_ex (\<lambda>c. \<not> clause_bang c \<or> 1 \<le> clause_count c) cl"
  shows "\<not> re_match (Regex True (map clause_item cl) True) []"
proof -
  from assms(2) obtain c where c: "c \<in> set cl" "\<not> clause_bang c \<or> 1 \<le> clause_count c"
    unfolding list_ex_iff by blast
  from c(2) have "\<not> spec_clause_accepts c []"
    by (auto simp: spec_clause_empty)
  with c(1) have "\<not> list_all (\<lambda>c. spec_clause_accepts c []) cl"
    unfolding list_all_iff by blast
  then have "\<not> spec_pattern_accepts cl []"
    using spec_pattern_empty [of cl] by blast
  then show ?thesis
    using re_match_pattern [OF assms(1), of "[]"] by simp
qed

text \<open>The end anchor \<^verbatim>\<open>$\<close> of the engine also matches just before a newline that ends
  the string.\<close>

lemma dollar_before_final_newline:
  "compile_pattern ''8!n'' = Inr (Regex True [Rep Digit 8 (Some 8)] True)
   \<and> re_match (Regex True [Rep Digit 8 (Some 8)] True) (''12345678'' @ [newline])"
  by (simp add: compile_pattern_def re_eval sub_eval match_rep_exact)

text \<open>A valid value of a well-formed table has a non-empty BBAN.\<close>

lemma wf_table_matcher:
  assumes "wf_table reg" "reg cc = Some sp"
  shows "\<exists>cl. cl \<noteq> [] \<and> list_all wf_clause cl
           \<and> list_all (\<lambda>c. 1 \<le> clause_count c) cl
           \<and> regex sp = Some (Regex True (map clause_item cl) True)"
proof -
  from assms obtain cl m where cl: "cl \<noteq> []" "list_all wf_clause cl"
    "list_all (\<lambda>c. 1 \<le> clause_count c \<and> clause_count c < MAXREPEAT) cl"
    "bban_spec sp = pattern_of cl" "compile_pattern (bban_spec sp) = Inr m" "regex sp = Some m"
    unfolding wf_table_def by blast
  from cl(3) have n: "list_all (\<lambda>c. clause_count c < MAXREPEAT) cl"
    and o: "list_all (\<lambda>c. 1 \<le> clause_count c) cl"
    and nb: "\<not> list_ex bad_clause cl"
    by (auto simp: list_all_iff list_ex_iff bad_clause_def)
  from compile_pattern_clauses [OF cl(2) n] nb cl(4,5)
  have "m = Regex True (map clause_item cl) True"
    by simp
  with cl(1,2,6) o show ?thesis by blast
qed

lemma valid_has_bban:
  assumes "wf_table reg" "validate reg x = Inr True"
  shows "5 \<le> length (compact x)"
proof -
  from assms(2) have vc: "validate_characters x = Inr ()" and vf: "validate_format reg x = Inr ()"
    by (auto simp: validate_def split: sum.splits)
  from vc have l4: "4 \<le> length (compact x)"
    by (simp add: validate_characters_eq split: if_splits)
  from vf obtain sp r where sp: "reg (country_code x) = Some sp" "regex sp = Some r"
    "re_match r (bban x)"
    by (auto simp: validate_format_def spec_def get_iban_spec_def
        split: sum.splits option.splits if_splits)
  from wf_table_matcher [OF assms(1) sp(1)] sp(2) obtain cl where cl: "cl \<noteq> []"
    "list_all wf_clause cl" "list_all (\<lambda>c. 1 \<le> clause_count c) cl"
    "r = Regex True (map clause_item cl) True"
    by auto
  from cl(1,3) have "list_ex (\<lambda>c. \<not> clause_bang c \<or> 1 \<le> clause_count c) cl"
    by (cases cl) auto
  from re_match_pattern_empty [OF cl(2) this] sp(3) cl(4) have "bban x \<noteq> []"
    by auto
  then have "drop 4 (compact x) \<noteq> []"
    by (simp add: bban_def get_component_def)
  then show ?thesis by simp
qed

text \<open>A compact value holds no newline: the base class removes all whitespace.\<close>

lemma to_upper_not_newline: "\<not> is_space c \<Longrightarrow> to_upper c \<noteq> newline"
proof (cases "is_lower c")
  case True
  have "\<And>n::nat. 97 \<le> n \<Longrightarrow> n \<le> 122 \<Longrightarrow> n - 32 < 256 \<and> n - 32 \<noteq> 10"
    by arith
  with True have m: "(of_char c :: nat) - 32 < 256" "(of_char c :: nat) - 32 \<noteq> 10"
    by (simp_all add: is_lower_def in_range_def)
  have "(of_char (char_of ((of_char c :: nat) - 32)) :: nat) = (of_char c - 32) mod 256"
    by (rule of_char_of)
  with m have "(of_char (char_of ((of_char c :: nat) - 32)) :: nat) \<noteq> 10"
    by simp
  moreover have "(of_char newline :: nat) = 10"
    by (simp add: newline_def)
  ultimately have "char_of ((of_char c :: nat) - 32) \<noteq> newline"
    by metis
  with True show ?thesis
    by (simp add: to_upper_def)
next
  case False
  assume "\<not> is_space c"
  then have "(of_char c :: nat) \<noteq> 10"
    by (simp add: is_space_def)
  moreover have "(of_char newline :: nat) = 10"
    by (simp add: newline_def)
  ultimately have "c \<noteq> newline"
    by metis
  with False show ?thesis
    by (simp add: to_upper_def)
qed

lemma clean_no_newline: "newline \<notin> set (clean s)"
proof
  assume "newline \<in> set (clean s)"
  then have "newline \<in> to_upper ` set (filter (\<lambda>c. \<not> is_space c) s)"
    by (simp only: clean_def set_map)
  then obtain c where c: "c \<in> set (filter (\<lambda>c. \<not> is_space c) s)" "newline = to_upper c"
    by (rule imageE)
  from c(1) have "\<not> is_space c"
    by simp
  from to_upper_not_newline [OF this] c(2) show False
    by simp
qed

lemma bban_no_newline: "newline \<notin> set (bban (base_init s))"
proof
  assume "newline \<in> set (bban (base_init s))"
  then have "newline \<in> set (drop 4 (clean s))"
    by (simp add: bban_def get_component_def compact_def base_init_def)
  then have "newline \<in> set (clean s)"
    by (rule in_set_dropD)
  with clean_no_newline [of s] show False
    by simp
qed

section \<open>The pattern compiler\<close>

text \<open>
  Claim C4, as amended. The compiler checks neither the type characters nor the counts:
  text of the pattern that is not a clause stays in the regex as it is. For a pattern
  that is a sequence of clauses with type characters among \<open>n\<close>, \<open>a\<close>, \<open>c\<close>, \<open>e\<close> and
  counts below the engine's repeat limit, compilation fails (with the regex engine's
  error, and no matcher is stored) exactly when some clause without \<open>!\<close> has the count
  0; otherwise a matcher is produced.
\<close>

theorem compile_fails_iff_zero_count_without_bang:
  assumes "list_all wf_clause cl" and "list_all (\<lambda>c. clause_count c < MAXREPEAT) cl"
  shows "(list_ex bad_clause cl \<longrightarrow>
            compile_pattern (pattern_of cl) = Inl InvalidSpecification
            \<and> (\<forall>sp. bban_spec sp = pattern_of cl \<longrightarrow> add_bban_regex sp = Inl InvalidSpecification))
       \<and> (\<not> list_ex bad_clause cl \<longrightarrow>
            (\<exists>m. compile_pattern (pattern_of cl) = Inr m
               \<and> (\<forall>sp. bban_spec sp = pattern_of cl \<longrightarrow>
                     add_bban_regex sp = Inr (sp\<lparr>regex := Some m\<rparr>))))"
  using compile_pattern_clauses [OF assms]
  by (simp add: add_bban_regex_def)

theorem compile_fails_iff_zero_count_without_bang_witness:
  "compile_pattern ''0n'' = Inl InvalidSpecification
   \<and> (\<exists>m. compile_pattern ''8!n10!n'' = Inr m)"
proof -
  let ?bad = "[(''0'', False, CHR ''n'')] :: clause list"
  let ?good = "[(''8'', True, CHR ''n''), (''10'', True, CHR ''n'')] :: clause list"
  have d: "decimal_value ''0'' = 0" "decimal_value ''8'' = 8" "decimal_value ''10'' = 10"
    by (simp_all add: decimal_value_def digit_value_def)
  have b1: "list_all wf_clause ?bad" and g1: "list_all wf_clause ?good"
    by (simp_all add: wf_clause_def clause_type_def char_eval)
  have b2: "list_all (\<lambda>c. clause_count c < MAXREPEAT) ?bad"
    and g2: "list_all (\<lambda>c. clause_count c < MAXREPEAT) ?good"
    by (simp_all add: clause_count_def d MAXREPEAT_def)
  have b3: "list_ex bad_clause ?bad" and g3: "\<not> list_ex bad_clause ?good"
    by (simp_all add: bad_clause_def clause_bang_def clause_count_def d)
  have pb: "pattern_of ?bad = ''0n''" and pg: "pattern_of ?good = ''8!n10!n''"
    by (simp_all add: pattern_of_def clause_str_def clause_bang_def clause_type_def)
  from compile_fails_iff_zero_count_without_bang [OF b1 b2] b3 pb
  have "compile_pattern ''0n'' = Inl InvalidSpecification"
    by simp
  moreover from compile_fails_iff_zero_count_without_bang [OF g1 g2] g3 pg
  have "\<exists>m. compile_pattern ''8!n10!n'' = Inr m"
    by auto
  ultimately show ?thesis by simp
qed

text \<open>The claim as stated fails: an unknown type character and a zero count with \<open>!\<close>
  both compile.\<close>

theorem unknown_type_char_compiles:
  "compile_pattern ''8!x''
     = Inr (Regex True [Rep (Literal (CHR ''8'')) 1 (Some 1), Rep (Literal (CHR ''!'')) 1 (Some 1),
                        Rep (Literal (CHR ''x'')) 1 (Some 1)] True)
   \<and> compile_pattern ''0!n'' = Inr (Regex True [Rep Digit 0 (Some 0)] True)"
  by (simp add: compile_pattern_def re_eval sub_eval)



section \<open>The order of the checks\<close>

text \<open>
  Claim C9. The four checks run in the order characters, length, format, checksum, and
  the first failure is the result of validation. For a table as the specification
  describes it and every value that passes validation, the value without its last
  character passes the character check and fails validation at the length check with
  \<open>InvalidLength\<close>.
\<close>

theorem validate_order_and_truncation:
  "(validate_characters x = Inl e \<longrightarrow> validate reg x = Inl e)
   \<and> (validate_characters x = Inr () \<and> validate_length reg x = Inl e \<longrightarrow> validate reg x = Inl e)
   \<and> (validate_characters x = Inr () \<and> validate_length reg x = Inr ()
        \<and> validate_format reg x = Inl e \<longrightarrow> validate reg x = Inl e)
   \<and> (validate_characters x = Inr () \<and> validate_length reg x = Inr ()
        \<and> validate_format reg x = Inr () \<and> validate_checksum x = Inl e \<longrightarrow> validate reg x = Inl e)
   \<and> (validate_characters x = Inr () \<and> validate_length reg x = Inr ()
        \<and> validate_format reg x = Inr () \<and> validate_checksum x = Inr () \<longrightarrow> validate reg x = Inr True)
   \<and> (wf_table reg \<and> validate reg x = Inr True \<longrightarrow>
        validate_characters \<lparr>code = butlast (compact x)\<rparr> = Inr ()
        \<and> validate_length reg \<lparr>code = butlast (compact x)\<rparr> = Inl InvalidLength
        \<and> validate reg \<lparr>code = butlast (compact x)\<rparr> = Inl InvalidLength)"
proof -
  have order: "(validate_characters x = Inl e \<longrightarrow> validate reg x = Inl e)
   \<and> (validate_characters x = Inr () \<and> validate_length reg x = Inl e \<longrightarrow> validate reg x = Inl e)
   \<and> (validate_characters x = Inr () \<and> validate_length reg x = Inr ()
        \<and> validate_format reg x = Inl e \<longrightarrow> validate reg x = Inl e)
   \<and> (validate_characters x = Inr () \<and> validate_length reg x = Inr ()
        \<and> validate_format reg x = Inr () \<and> validate_checksum x = Inl e \<longrightarrow> validate reg x = Inl e)
   \<and> (validate_characters x = Inr () \<and> validate_length reg x = Inr ()
        \<and> validate_format reg x = Inr () \<and> validate_checksum x = Inr () \<longrightarrow> validate reg x = Inr True)"
    by (simp add: validate_def)
  have trunc: "validate_characters \<lparr>code = butlast (compact x)\<rparr> = Inr ()
        \<and> validate_length reg \<lparr>code = butlast (compact x)\<rparr> = Inl InvalidLength
        \<and> validate reg \<lparr>code = butlast (compact x)\<rparr> = Inl InvalidLength"
    if w: "wf_table reg" and v: "validate reg x = Inr True"
  proof -
    let ?c = "compact x"
    let ?y = "\<lparr>code = butlast (compact x)\<rparr>"
    from valid_has_bban [OF w v] have l: "5 \<le> length ?c" .
    from v have vc: "validate_characters x = Inr ()" and vl: "validate_length reg x = Inr ()"
      by (auto simp: validate_def split: sum.splits)
    have b: "butlast ?c = take (length ?c - 1) ?c"
      by (rule butlast_conv_take)
    from l have m: "min 2 (length ?c - 1) = 2" "min 2 (length ?c - 1 - 2) = 2"
      by arith+
    have t2: "take 2 (butlast ?c) = take 2 ?c"
      and t4: "take 2 (drop 2 (butlast ?c)) = take 2 (drop 2 ?c)"
      by (simp_all only: b drop_take take_take m)
    from l have l4: "4 \<le> length (butlast ?c)"
      by simp
    from vc l4 t2 t4 have c1: "validate_characters ?y = Inr ()"
      by (simp add: validate_characters_eq compact_def split: if_splits)
    from t2 have cc: "country_code ?y = country_code x"
      by (simp add: country_code_def get_component_def compact_def)
    from vl obtain sp where sp: "spec reg x = Inr sp" "iban_length sp = int (length ?c)"
      by (auto simp: validate_length_def length_iban_def split: sum.splits if_splits)
    from l have "int (length ?c) \<noteq> int (length (butlast ?c))"
      by simp
    with sp cc have c2: "validate_length reg ?y = Inl InvalidLength"
      by (simp add: validate_length_def spec_def length_iban_def compact_def)
    from c1 c2 show ?thesis
      by (simp add: validate_def)
  qed
  from order trunc show ?thesis by blast
qed

lemma de_registry_wf: "wf_table de_registry"
proof -
  let ?cl = "[(''8'', True, CHR ''n''), (''10'', True, CHR ''n'')] :: clause list"
  let ?m = "Regex True [Rep Digit 8 (Some 8), Rep Digit 10 (Some 10)] True"
  have d: "decimal_value ''8'' = 8" "decimal_value ''10'' = 10"
    by (simp_all add: decimal_value_def digit_value_def)
  have h1: "list_all wf_clause ?cl"
    by (simp add: wf_clause_def clause_type_def char_eval)
  have h2: "list_all (\<lambda>c. 1 \<le> clause_count c \<and> clause_count c < MAXREPEAT) ?cl"
    by (simp add: clause_count_def d MAXREPEAT_def)
  have p: "pattern_of ?cl = ''8!n10!n''"
    by (simp add: pattern_of_def clause_str_def clause_bang_def clause_type_def)
  have c: "compile_pattern ''8!n10!n'' = Inr ?m"
    by (simp add: compile_pattern_def re_eval sub_eval)
  have "\<exists>cl. cl \<noteq> [] \<and> list_all wf_clause cl
           \<and> list_all (\<lambda>c. 1 \<le> clause_count c \<and> clause_count c < MAXREPEAT) cl
           \<and> bban_spec sp = pattern_of cl
           \<and> (\<exists>m. compile_pattern (bban_spec sp) = Inr m \<and> regex sp = Some m)"
    if "de_registry cc = Some sp" for cc sp
  proof -
    from that have sp: "sp = de_raw\<lparr>regex := Some ?m\<rparr>"
      by (simp add: de_registry_eq split: if_splits)
    then have "bban_spec sp = pattern_of ?cl" "compile_pattern (bban_spec sp) = Inr ?m"
      "regex sp = Some ?m"
      by (simp_all add: de_raw_def p c)
    with h1 h2 show ?thesis
      by (intro exI [of _ ?cl]) simp
  qed
  then show ?thesis
    unfolding wf_table_def by blast
qed

theorem validate_order_and_truncation_witness:
  "wf_table de_registry
   \<and> validate de_registry \<lparr>code = ''DE89370400440532013000''\<rparr> = Inr True
   \<and> validate de_registry \<lparr>code = ''DE8937040044053201300''\<rparr> = Inl InvalidLength"
proof -
  let ?x = "\<lparr>code = ''DE89370400440532013000''\<rparr>"
  from validate_order_and_truncation [of ?x _ de_registry] de_valid de_registry_wf
  have "validate de_registry \<lparr>code = butlast (compact ?x)\<rparr> = Inl InvalidLength"
    by blast
  then show ?thesis
    by (simp add: de_valid de_registry_wf compact_def)
qed

section \<open>The generation round trip\<close>

lemma clean_id: "list_all (\<lambda>c. \<not> is_space c \<and> \<not> is_lower c) s \<Longrightarrow> clean s = s"
  by (induction s) (auto simp: clean_def to_upper_def)

lemma alphabet_char_clean: "is_digit c \<or> is_upper c \<Longrightarrow> \<not> is_space c \<and> \<not> is_lower c"
  by (auto simp: is_digit_def is_upper_def is_lower_def is_space_def in_range_def)

lemma format_2d_two_digits:
  assumes "10 \<le> v" "v \<le> 98"
  shows "format_2d v = [digit_char (nat v div 10), digit_char (nat v mod 10)]"
proof -
  from assms have "10 \<le> nat v" "nat v < 100"
    by simp_all
  with assms show ?thesis
    by (simp add: format_2d_def rjust_def str_int_def str_nat_lt100)
qed

lemma numerify_append_two_digits:
  assumes "numerify s = Inr n" "a < 10" "b < 10"
  shows "numerify (s @ [digit_char a, digit_char b]) = Inr (n * 100 + int (10 * a + b))"
proof -
  let ?f = "\<lambda>acc c. if is_digit c then acc * 10 + (of_char c - 48) else acc * 100 + (of_char c - 55)"
  from assms(1) have s: "list_all (\<lambda>c. is_digit c \<or> is_upper c) s" "n = int (foldl ?f 0 s)"
    by (auto simp: numerify_eval split: if_splits)
  have d: "is_digit (digit_char a)" "is_digit (digit_char b)"
    using assms(2,3) by (simp_all add: is_digit_digit_char)
  have v: "(of_char (digit_char a) :: nat) - 48 = a" "(of_char (digit_char b) :: nat) - 48 = b"
    using digit_value_digit_char [OF assms(2)] digit_value_digit_char [OF assms(3)]
    by (simp_all add: digit_value_def)
  have "foldl ?f 0 (s @ [digit_char a, digit_char b]) = (foldl ?f 0 s * 10 + a) * 10 + b"
    by (simp add: d v)
  then have "int (foldl ?f 0 (s @ [digit_char a, digit_char b])) = n * 100 + int (10 * a + b)"
    by (simp add: s(2))
  moreover have "list_all (\<lambda>c. is_digit c \<or> is_upper c) (s @ [digit_char a, digit_char b])"
    using s(1) d by simp
  ultimately show ?thesis
    by (simp add: numerify_eval del: foldl_append)
qed

lemma checksum_closes:
  fixes n :: int
  assumes "v = 98 - (n * 100) mod 97"
  shows "(n * 100 + v) mod 97 = 1"
proof -
  have "n * 100 = 97 * ((n * 100) div 97) + (n * 100) mod 97"
    by simp
  with assms have "n * 100 + v = 97 * ((n * 100) div 97) + 98"
    by linarith
  then show ?thesis
    by (simp only: mod_mult_self4) simp
qed

text \<open>The value the constructor builds from a skeleton over the alphabet, when the
  checksum value has two digits.\<close>

lemma skeleton_valid:
  assumes reg: "reg cc = Some sp"
    and cc: "length cc = 2" "list_all is_upper cc"
    and b: "list_all (\<lambda>c. c \<in> set alphabet) B"
    and len: "iban_length sp = 4 + int (length B)"
    and fmt: "regex sp = Some r" "re_match r B"
    and chk: "numerify (B @ cc) = Inr n" "(n * 100) mod 97 \<le> 88"
  shows "iban_init reg (cc @ ''??'' @ B) False
           = Inr \<lparr>code = cc @ format_2d (98 - (n * 100) mod 97) @ B\<rparr>
       \<and> validate reg \<lparr>code = cc @ format_2d (98 - (n * 100) mod 97) @ B\<rparr> = Inr True"
proof -
  let ?v = "98 - (n * 100) mod 97"
  let ?d = "format_2d ?v"
  let ?x = "\<lparr>code = cc @ ?d @ B\<rparr>"
  have v: "10 \<le> ?v" "?v \<le> 98"
    using chk(2) by simp_all
  let ?a = "nat ?v div 10" and ?b = "nat ?v mod 10"
  have ab: "?a < 10" "?b < 10"
    using v by simp_all
  have d: "?d = [digit_char ?a, digit_char ?b]"
    by (rule format_2d_two_digits [OF v])
  have dd: "list_all is_digit ?d"
    using ab by (simp add: d is_digit_digit_char del: format_2d_def)
  have ba: "list_all (\<lambda>c. is_digit c \<or> is_upper c) B"
    using b by (simp add: alphabet_iff)
  have ccl: "list_all (\<lambda>c. \<not> is_space c \<and> \<not> is_lower c) cc"
    using cc(2) alphabet_char_clean by (auto simp: list_all_iff)
  have bcl: "list_all (\<lambda>c. \<not> is_space c \<and> \<not> is_lower c) B"
    using ba alphabet_char_clean by (auto simp: list_all_iff)
  have q: "\<not> is_space (CHR ''?'') \<and> \<not> is_lower (CHR ''?'')"
    by (simp add: is_space_def is_lower_def in_range_def)
  have cl: "clean (cc @ ''??'' @ B) = cc @ ''??'' @ B"
    by (rule clean_id) (simp add: ccl bcl q)
  have acc: "country_code \<lparr>code = cc @ ''??'' @ B\<rparr> = cc"
    "checksum_digits \<lparr>code = cc @ ''??'' @ B\<rparr> = ''??''"
    "bban \<lparr>code = cc @ ''??'' @ B\<rparr> = B"
    using cc(1) by (simp_all add: country_code_def checksum_digits_def bban_def get_component_def
        compact_def)
  have bi: "base_init (cc @ ''??'' @ B) = \<lparr>code = cc @ ''??'' @ B\<rparr>"
    by (simp only: base_init_def cl)
  have p: "parse (base_init (cc @ ''??'' @ B)) = Inr ?x"
    by (simp only: bi parse_def calc_checksum_digits_def acc chk(1)) simp
  have ld: "length ?d = 2"
    by (simp add: d)
  have acx: "country_code ?x = cc" "bban ?x = B" "take 4 (compact ?x) = cc @ ?d"
    "take 2 (compact ?x) = cc" "take 2 (drop 2 (compact ?x)) = ?d"
    using cc(1) ld by (simp_all add: country_code_def bban_def get_component_def compact_def)
  have v1: "validate_characters ?x = Inr ()"
    using cc ld dd by (simp add: validate_characters_eq acx(4,5)) (simp add: compact_def)
  have v2: "validate_length reg ?x = Inr ()"
    using reg len cc(1) ld
    by (simp add: validate_length_def spec_def get_iban_spec_def acx(1) length_iban_def compact_def)
  have v3: "validate_format reg ?x = Inr ()"
    using reg fmt by (simp add: validate_format_def spec_def get_iban_spec_def acx(1,2))
  have "numerify ((B @ cc) @ [digit_char ?a, digit_char ?b])
      = Inr (n * 100 + int (10 * ?a + ?b))"
    by (rule numerify_append_two_digits [OF chk(1) ab])
  moreover have "int (10 * ?a + ?b) = ?v"
    using v by simp
  ultimately have nm: "numerify (B @ cc @ ?d) = Inr (n * 100 + ?v)"
    by (simp add: d)
  have v4: "validate_checksum ?x = Inr ()"
    using checksum_closes [of ?v n]
    by (simp add: validate_checksum_def numeric_def acx(2,3) nm)
  have val: "validate reg ?x = Inr True"
    by (simp add: validate_def v1 v2 v3 v4)
  have "iban_init reg (cc @ ''??'' @ B) False = Inr ?x"
    by (simp only: iban_init_def p) (simp add: val)
  with val show ?thesis by (simp only:)
qed

lemma generate_within_widths:
  assumes "reg cc = Some sp"
    and "positions sp ''bank_code'' = Some (b_s, b_e)"
    and "positions sp ''branch_code'' = Some (r_s, r_e)"
    and "positions sp ''account_code'' = Some (a_s, a_e)"
    and "int (length bank) \<le> (b_e - b_s) + (r_e - r_s)"
    and "int (length acct) \<le> a_e - a_s"
  shows "generate reg cc bank acct =
           iban_init reg
             (cc @ ''??'' @ rjust bank ((b_e - b_s) + (r_e - r_s)) (CHR ''0'')
                @ rjust acct (a_e - a_s) (CHR ''0''))
             False"
  using assms by (simp add: generate_def get_iban_spec_def code_length_def)

text \<open>
  Claim C1, as amended. For a country code of the table (two capitals) whose IBAN length
  is 4 plus the bank-and-branch and account widths, and bank and account codes over
  \<open>[0-9A-Z]\<close> within these widths whose zero-padded concatenation matches the country's
  BBAN pattern and gives a checksum value of at least 10, generation succeeds and the
  generated IBAN passes full validation.
\<close>

theorem generate_roundtrip:
  assumes "reg cc = Some sp"
    and "length cc = 2" and "list_all is_upper cc"
    and "positions sp ''bank_code'' = Some (b_s, b_e)"
    and "positions sp ''branch_code'' = Some (r_s, r_e)"
    and "positions sp ''account_code'' = Some (a_s, a_e)"
    and "int (length bank) \<le> (b_e - b_s) + (r_e - r_s)"
    and "int (length acct) \<le> a_e - a_s"
    and "list_all (\<lambda>c. c \<in> set alphabet) (bank @ acct)"
    and "iban_length sp = 4 + ((b_e - b_s) + (r_e - r_s)) + (a_e - a_s)"
    and "regex sp = Some r"
    and "re_match r (rjust bank ((b_e - b_s) + (r_e - r_s)) (CHR ''0'')
                      @ rjust acct (a_e - a_s) (CHR ''0''))"
    and "numerify (rjust bank ((b_e - b_s) + (r_e - r_s)) (CHR ''0'')
                      @ rjust acct (a_e - a_s) (CHR ''0'') @ cc) = Inr n"
    and "(n * 100) mod 97 \<le> 88"
  shows "\<exists>x. generate reg cc bank acct = Inr x \<and> validate reg x = Inr True
           \<and> compact x = cc @ format_2d (98 - (n * 100) mod 97)
                 @ rjust bank ((b_e - b_s) + (r_e - r_s)) (CHR ''0'')
                 @ rjust acct (a_e - a_s) (CHR ''0'')"
proof -
  let ?wb = "(b_e - b_s) + (r_e - r_s)" and ?wa = "a_e - a_s"
  let ?B = "rjust bank ?wb (CHR ''0'') @ rjust acct ?wa (CHR ''0'')"
  have z: "CHR ''0'' \<in> set alphabet"
    by (simp add: alphabet_def)
  have b: "list_all (\<lambda>c. c \<in> set alphabet) ?B"
    using assms(9) z by (auto simp: rjust_def list_all_iff)
  have l: "int (length ?B) = ?wb + ?wa"
    using assms(7,8) by (simp add: rjust_length)
  with assms(10) have len: "iban_length sp = 4 + int (length ?B)"
    by simp
  have n: "numerify (?B @ cc) = Inr n"
    using assms(13) by simp
  note k = skeleton_valid [of reg cc sp ?B r n, OF assms(1,2,3) b len assms(11,12) n assms(14)]
  have g: "generate reg cc bank acct = iban_init reg (cc @ ''??'' @ ?B) False"
    using generate_within_widths [of reg cc, OF assms(1,4,5,6,7,8)] by simp
  show ?thesis
    using k by (simp only: g) (simp add: compact_def)
qed

theorem generate_roundtrip_witness:
  "generate de_registry ''DE'' ''37040044'' ''532013000''
     = Inr \<lparr>code = ''DE89370400440532013000''\<rparr>
   \<and> validate de_registry \<lparr>code = ''DE89370400440532013000''\<rparr> = Inr True"
proof -
  let ?m = "Regex True [Rep Digit 8 (Some 8), Rep Digit 10 (Some 10)] True"
  let ?sp = "de_raw\<lparr>regex := Some ?m\<rparr>"
  have h1: "de_registry ''DE'' = Some ?sp"
    by (simp add: de_registry_eq)
  have h2: "length ''DE'' = 2" and h3: "list_all is_upper ''DE''"
    by (simp_all add: char_eval)
  have h4: "positions ?sp ''bank_code'' = Some (0, 8)"
    and h5: "positions ?sp ''branch_code'' = Some (8, 8)"
    and h6: "positions ?sp ''account_code'' = Some (8, 18)"
    by (simp_all add: de_raw_def)
  have h7: "int (length ''37040044'') \<le> (8 - 0) + (8 - 8)"
    and h8: "int (length ''532013000'') \<le> 18 - 8"
    by simp_all
  have h9: "list_all (\<lambda>c. c \<in> set alphabet) (''37040044'' @ ''532013000'')"
    by (simp add: alphabet_def)
  have h10: "iban_length ?sp = 4 + ((8 - 0) + (8 - 8)) + (18 - 8)"
    by (simp add: de_raw_def)
  have h11: "regex ?sp = Some ?m"
    by simp
  have pad: "rjust ''37040044'' ((8 - 0) + (8 - 8)) (CHR ''0'') @ rjust ''532013000'' (18 - 8) (CHR ''0'')
      = ''370400440532013000''"
    by (simp add: rjust_def)
  have h12: "re_match ?m (rjust ''37040044'' ((8 - 0) + (8 - 8)) (CHR ''0'')
      @ rjust ''532013000'' (18 - 8) (CHR ''0''))"
    by (simp only: pad) (simp add: match_rep_exact char_eval)
  have h13: "numerify (rjust ''37040044'' ((8 - 0) + (8 - 8)) (CHR ''0'')
      @ rjust ''532013000'' (18 - 8) (CHR ''0'') @ ''DE'') = Inr 3704004405320130001314"
    by (simp add: rjust_def numerify_eval char_eval)
  have h14: "((3704004405320130001314 :: int) * 100) mod 97 \<le> 88"
    by simp
  from generate_roundtrip [of de_registry "''DE''", OF h1 h2 h3 h4 h5 h6 h7 h8 h9 h10 h11 h12 h13 h14]
  obtain x where x: "generate de_registry ''DE'' ''37040044'' ''532013000'' = Inr x"
    "validate de_registry x = Inr True"
    "compact x = ''DE'' @ format_2d (98 - ((3704004405320130001314 :: int) * 100) mod 97)
        @ rjust ''37040044'' ((8 - 0) + (8 - 8)) (CHR ''0'') @ rjust ''532013000'' (18 - 8) (CHR ''0'')"
    by blast
  have f: "format_2d (98 - ((3704004405320130001314 :: int) * 100) mod 97) = ''89''"
    by (simp add: format_2d_def rjust_def str_int_def str_nat_lt100 digit_char_eval)
  from x(3) have "x = \<lparr>code = ''DE89370400440532013000''\<rparr>"
    by (simp only: f pad) (simp add: compact_def)
  with x(1,2) show ?thesis by simp
qed

text \<open>The claim as stated fails: the width of a code is not the only condition, the
  padded codes must also match the country's BBAN pattern.\<close>

theorem generate_rejects_letters_in_numeric_field:
  "generate de_registry ''DE'' ''ABCDEFGH'' ''532013000''
     = Inl (InvalidBBANStructure ''ABCDEFGH0532013000'' ''8!n10!n'')"
proof -
  let ?x = "\<lparr>code = ''DE92ABCDEFGH0532013000''\<rparr>"
  have cl: "clean ''DE??ABCDEFGH0532013000'' = ''DE??ABCDEFGH0532013000''"
    by (simp add: clean_def is_space_def to_upper_def is_lower_def in_range_def)
  have p: "parse (base_init ''DE??ABCDEFGH0532013000'') = Inr ?x"
    by (simp add: base_init_def cl parse_def calc_checksum_digits_def iban_eval
        numerify_eval char_eval format_2d_def rjust_def str_int_def str_nat_lt100 digit_char_eval)
  have v1: "validate_characters ?x = Inr ()"
    by (simp add: validate_characters_eq compact_def char_eval)
  have v2: "validate_length de_registry ?x = Inr ()"
    by (simp add: validate_length_def iban_eval de_registry_eq de_raw_def)
  have v3: "validate_format de_registry ?x
      = Inl (InvalidBBANStructure ''ABCDEFGH0532013000'' ''8!n10!n'')"
    by (simp add: validate_format_def iban_eval de_registry_eq de_raw_def match_rep_exact char_eval)
  have i: "iban_init de_registry ''DE??ABCDEFGH0532013000'' False
      = Inl (InvalidBBANStructure ''ABCDEFGH0532013000'' ''8!n10!n'')"
    by (simp add: iban_init_def p validate_def v1 v2 v3)
  let ?m = "Regex True [Rep Digit 8 (Some 8), Rep Digit 10 (Some 10)] True"
  let ?sp = "de_raw\<lparr>regex := Some ?m\<rparr>"
  have h1: "de_registry ''DE'' = Some ?sp"
    by (simp add: de_registry_eq)
  have h4: "positions ?sp ''bank_code'' = Some (0, 8)"
    and h5: "positions ?sp ''branch_code'' = Some (8, 8)"
    and h6: "positions ?sp ''account_code'' = Some (8, 18)"
    by (simp_all add: de_raw_def)
  have h7: "int (length ''ABCDEFGH'') \<le> (8 - 0) + (8 - 8)"
    and h8: "int (length ''532013000'') \<le> 18 - 8"
    by simp_all
  have pad: "''DE'' @ ''??'' @ rjust ''ABCDEFGH'' ((8 - 0) + (8 - 8)) (CHR ''0'')
      @ rjust ''532013000'' (18 - 8) (CHR ''0'') = ''DE??ABCDEFGH0532013000''"
    by (simp add: rjust_def)
  show ?thesis
    using generate_within_widths [of de_registry "''DE''", OF h1 h4 h5 h6 h7 h8]
    by (simp only: pad i)
qed

end
